theory Spec2Isabelle
  imports Main
begin

section \<open>The Energy component of the animation package\<close>

text \<open>
  A shallow embedding of \<^verbatim>\<open>packages/animation/src/Energy/Energy.js\<close>: the class
  \<^verbatim>\<open>Component\<close>, whose instances are the nodes of the energy tree.

  Conventions of the embedding.
  \<^item> A JavaScript number is a value of the type parameter \<open>'n\<close>; the code only copies
    durations and hands them to \<^verbatim>\<open>setTimeout\<close>, and the literals \<^verbatim>\<open>200\<close> and
    \<^verbatim>\<open>0\<close> are the only arithmetic it needs.
  \<^item> An optional value (a prop that may be \<^verbatim>\<open>undefined\<close>, a field that may be
    \<^verbatim>\<open>null\<close>) is an \<open>option\<close>; \<open>None\<close> is the absent value.
  \<^item> A duration object is a finite map from the names of its own properties to their
    values; \<^verbatim>\<open>PropTypes.number\<close> lets a property be a number or be there with the value
    \<^verbatim>\<open>undefined\<close>, so a value is a \<open>jsvalue\<close>. Object spread \<^verbatim>\<open>{...a, ...b}\<close> copies
    every own property of \<open>b\<close> over \<open>a\<close>, whatever its value: it is map overlay
    \<open>a ++ b\<close>. Reading a property that is not there gives \<^verbatim>\<open>undefined\<close>.
  \<^item> \<^verbatim>\<open>this.props\<close> is an explicit argument \<open>p\<close>; the instance fields and
    \<^verbatim>\<open>this.state\<close> are the record \<open>node\<close>, passed in and returned updated.
  \<^item> The timers of the environment are part of the node record: \<open>timers\<close> is the
    table of pending timeouts by id and \<open>nextTimer\<close> the next id \<^verbatim>\<open>setTimeout\<close>
    hands out. A timeout closure is a value of \<open>callback\<close>; it is run by \<open>fire\<close>
    with the props of that moment, as the closures read \<^verbatim>\<open>this.props\<close> when they run.
  \<^item> \<^verbatim>\<open>setState\<close> takes effect at once, together with its completion callback; the
    re-render it causes reaches the node as a later \<open>componentDidUpdate\<close>.
  \<^item> Every call that leaves the component (\<^verbatim>\<open>clearTimeout\<close>, \<^verbatim>\<open>setTimeout\<close>,
    \<^verbatim>\<open>setState\<close>, \<^verbatim>\<open>props.onActivate\<close>) is appended to the trace \<open>effects\<close>.
  \<^item> Reading a property of \<^verbatim>\<open>undefined\<close> throws; the throw is the value
    \<open>Inl TypeError\<close>.
\<close>

subsection \<open>Data\<close>

datatype FlowState = ENTERING | ENTERED | EXITING | EXITED

datatype error = TypeError

datatype 'n jsvalue = Undefined | Number 'n

type_synonym 'n durationObject = "string \<rightharpoonup> 'n jsvalue"

datatype 'n durationValue = DurationNumber 'n | DurationObject "'n durationObject"

text \<open>
  The frozen object \<^verbatim>\<open>{ value: flowValue, [flowValue]: true }\<close>: the tag, and the flags
  by state name (a flag that is not there reads as \<^verbatim>\<open>undefined\<close>).
\<close>

record flowSnapshot =
  flow_value :: FlowState
  flow_flags :: "FlowState \<rightharpoonup> bool"

text \<open>
  The object handed to descendants. Its accessors (\<^verbatim>\<open>getDuration\<close>, \<^verbatim>\<open>hasEntered\<close>, ...)
  are the node's own bound methods and hold no data; the data it carries is \<open>flow\<close>.
\<close>

record energyInterface =
  flow :: flowSnapshot

record 'n animationContext =
  context_animate :: "bool option"
  context_duration :: "'n durationObject option"

text \<open>
  The props. \<open>onActivate\<close> tells whether the caller passed a callback; what the callback
  does is the caller's, its invocation is an entry of the trace.
\<close>

record 'n props =
  animate :: "bool option"
  root :: "bool option"
  activate :: "bool option"
  duration :: "'n durationValue option"
  merge :: "bool option"
  onActivate :: bool
  animationContext :: "'n animationContext"
  parentEnergyContext :: "energyInterface option"

text \<open>
  The three closures the code passes to \<^verbatim>\<open>setTimeout\<close>: the one \<^verbatim>\<open>enter\<close> builds, the
  one \<^verbatim>\<open>exit\<close> builds, and \<^verbatim>\<open>() => this.setFlowValue(v)\<close>.
\<close>

datatype callback = EnterCallback | ExitCallback | SetFlowValueCallback FlowState

datatype 'n effect =
  ClearTimeout "nat option"
| SetTimeout nat "'n jsvalue" callback
| SetState FlowState
| OnActivate bool

record 'n node =
  flowValue :: FlowState
  stateEnergyInterface :: energyInterface
  flowHasEntered :: bool
  flowHasExited :: bool
  activated :: bool
  customDuration :: "'n durationObject option"
  scheduleTimeout :: "nat option"
  timers :: "nat \<rightharpoonup> ('n jsvalue \<times> callback)"
  nextTimer :: nat
  effects :: "'n effect list"

subsection \<open>JavaScript operators\<close>

definition truthy :: "bool option \<Rightarrow> bool" where
  "truthy x = (x = Some True)"

definition js_or :: "bool option \<Rightarrow> bool option \<Rightarrow> bool option" where
  "js_or a b = (if truthy a then a else b)"

definition spread :: "'n durationObject option \<Rightarrow> 'n durationObject" where
  "spread x = (case x of None \<Rightarrow> Map.empty | Some m \<Rightarrow> m)"

text \<open>The property access \<^verbatim>\<open>duration.enter\<close>, \<^verbatim>\<open>duration.exit\<close>, \<^verbatim>\<open>duration.delay\<close>.\<close>

definition readField :: "'n durationObject \<Rightarrow> string \<Rightarrow> 'n jsvalue" where
  "readField m k = (case m k of None \<Rightarrow> Undefined | Some v \<Rightarrow> v)"

text \<open>
  \<^verbatim>\<open>typeof v === 'number' ? { enter: v, exit: v } : v\<close>, as \<^verbatim>\<open>getDuration\<close> and
  \<^verbatim>\<open>updateDuration\<close> both write it.
\<close>

definition numberToObject :: "'n durationValue option \<Rightarrow> 'n durationObject option" where
  "numberToObject v =
     (case v of
        None \<Rightarrow> None
      | Some (DurationNumber n) \<Rightarrow> Some [''enter'' \<mapsto> Number n, ''exit'' \<mapsto> Number n]
      | Some (DurationObject m) \<Rightarrow> Some m)"

subsection \<open>The methods of the component\<close>

definition getEnergyInterface :: "FlowState \<Rightarrow> energyInterface" where
  "getEnergyInterface fv = \<lparr>flow = \<lparr>flow_value = fv, flow_flags = [fv \<mapsto> True]\<rparr>\<rparr>"

definition isAnimate :: "'n props \<Rightarrow> bool" where
  "isAnimate p =
     (let a0 = True;
          a1 = (case context_animate (animationContext p) of Some b \<Rightarrow> b | None \<Rightarrow> a0);
          a2 = (case animate p of Some b \<Rightarrow> b | None \<Rightarrow> a1)
      in a2)"

definition isRoot :: "'n props \<Rightarrow> bool" where
  "isRoot p =
     (let r0 = True;
          r1 = (if parentEnergyContext p \<noteq> None then False else r0);
          r2 = (case root p of Some b \<Rightarrow> b | None \<Rightarrow> r1)
      in r2)"

definition defaultDuration :: "('n::{zero,numeral}) durationObject" where
  "defaultDuration =
     [''enter'' \<mapsto> Number 200, ''exit'' \<mapsto> Number 200, ''delay'' \<mapsto> Number 0]"

definition getDuration :: "('n::{zero,numeral}) props \<Rightarrow> 'n node \<Rightarrow> 'n durationObject" where
  "getDuration p s =
     (let providedDuration = context_duration (animationContext p);
          propDuration = numberToObject (duration p)
      in defaultDuration ++ spread providedDuration ++ spread propDuration
           ++ spread (customDuration s))"

definition updateDuration :: "'n durationValue option \<Rightarrow> 'n node \<Rightarrow> 'n node" where
  "updateDuration d s = s\<lparr>customDuration := numberToObject d\<rparr>"

definition hasEntered :: "'n node \<Rightarrow> bool" where
  "hasEntered s = flowHasEntered s"

definition hasExited :: "'n node \<Rightarrow> bool" where
  "hasExited s = flowHasExited s"

definition isActivated :: "'n props \<Rightarrow> error + bool" where
  "isActivated p =
     (if isRoot p then
        (case activate p of Some b \<Rightarrow> Inr b | None \<Rightarrow> Inr True)
      else
        (case parentEnergyContext p of
           None \<Rightarrow> Inl TypeError
         | Some parent \<Rightarrow>
             (let parentFlow = flow parent in
              if truthy (merge p) then
                Inr (truthy (js_or (flow_flags parentFlow ENTERING) (flow_flags parentFlow ENTERED)))
              else
                Inr (truthy (flow_flags parentFlow ENTERED)))))"

definition unschedule :: "'n node \<Rightarrow> 'n node" where
  "unschedule s =
     s\<lparr>timers := (case scheduleTimeout s of None \<Rightarrow> timers s | Some i \<Rightarrow> (timers s)(i := None)),
       effects := effects s @ [ClearTimeout (scheduleTimeout s)]\<rparr>"

definition schedule :: "'n jsvalue \<Rightarrow> callback \<Rightarrow> 'n node \<Rightarrow> 'n node" where
  "schedule time cb s =
     (let s1 = unschedule s; i = nextTimer s1
      in s1\<lparr>scheduleTimeout := Some i,
            timers := (timers s1)(i \<mapsto> (time, cb)),
            nextTimer := Suc i,
            effects := effects s1 @ [SetTimeout i time cb]\<rparr>)"

definition setFlowValue :: "FlowState \<Rightarrow> 'n node \<Rightarrow> 'n node" where
  "setFlowValue fv s =
     s\<lparr>flowValue := fv,
       stateEnergyInterface := getEnergyInterface fv,
       flowHasEntered := (if fv = ENTERED then True else flowHasEntered s),
       flowHasExited := (if fv = ENTERED then flowHasExited s
                         else if fv = EXITED then True else flowHasExited s),
       effects := effects s @ [SetState fv]\<rparr>"

definition enter :: "('n::{zero,numeral}) props \<Rightarrow> 'n node \<Rightarrow> 'n node" where
  "enter p s =
     (let fv = flowValue s in
      if fv = ENTERING \<or> fv = ENTERED then s
      else
        (let d = getDuration p s;
             delay = (if fv = EXITED then readField d ''delay'' else Number 0)
         in schedule delay EnterCallback s))"

definition exit :: "('n::{zero,numeral}) node \<Rightarrow> 'n node" where
  "exit s =
     (let fv = flowValue s in
      if fv = EXITING \<or> fv = EXITED then s
      else schedule (Number 0) ExitCallback s)"

text \<open>The bodies of the three closures.\<close>

definition runCallback :: "('n::{zero,numeral}) props \<Rightarrow> callback \<Rightarrow> 'n node \<Rightarrow> 'n node" where
  "runCallback p cb s =
     (case cb of
        EnterCallback \<Rightarrow>
          (let d = getDuration p s
           in schedule (readField d ''enter'') (SetFlowValueCallback ENTERED)
                (setFlowValue ENTERING s))
      | ExitCallback \<Rightarrow>
          (let d = getDuration p s
           in schedule (readField d ''exit'') (SetFlowValueCallback EXITED)
                (setFlowValue EXITING s))
      | SetFlowValueCallback fv \<Rightarrow> setFlowValue fv s)"

text \<open>
  The environment runs the pending timeout \<open>i\<close>: it leaves the table and its closure runs.
  An id that is not pending (never set, cleared, or already run) runs nothing.
\<close>

definition fire :: "('n::{zero,numeral}) props \<Rightarrow> nat \<Rightarrow> 'n node \<Rightarrow> 'n node" where
  "fire p i s =
     (case timers s i of
        None \<Rightarrow> s
      | Some (time, cb) \<Rightarrow> runCallback p cb (s\<lparr>timers := (timers s)(i := None)\<rparr>))"

definition getInitialState :: "'n props \<Rightarrow> FlowState \<times> energyInterface" where
  "getInitialState p =
     (let fv = (if isAnimate p then EXITED else ENTERED)
      in (fv, getEnergyInterface fv))"

text \<open>The constructor; the environment starts with no pending timeout.\<close>

definition constructor :: "'n props \<Rightarrow> 'n node" where
  "constructor p =
     (case getInitialState p of
        (fv, ei) \<Rightarrow>
          \<lparr>flowValue = fv, stateEnergyInterface = ei,
           flowHasEntered = False, flowHasExited = False, activated = False,
           customDuration = None, scheduleTimeout = None,
           timers = Map.empty, nextTimer = 0, effects = []\<rparr>)"

definition componentDidMount :: "('n::{zero,numeral}) props \<Rightarrow> 'n node \<Rightarrow> error + 'n node" where
  "componentDidMount p s =
     (let an = isAnimate p in
      case isActivated p of
        Inl e \<Rightarrow> Inl e
      | Inr act \<Rightarrow> Inr (if an \<and> act then enter p s else s))"

definition componentDidUpdate :: "('n::{zero,numeral}) props \<Rightarrow> 'n node \<Rightarrow> error + 'n node" where
  "componentDidUpdate p s =
     (let an = isAnimate p in
      case isActivated p of
        Inl e \<Rightarrow> Inl e
      | Inr act \<Rightarrow>
          Inr (if an \<and> act \<noteq> activated s then
                 (let s1 = s\<lparr>activated := act\<rparr>;
                      s2 = (if onActivate p
                            then s1\<lparr>effects := effects s1 @ [OnActivate act]\<rparr> else s1)
                  in if act then enter p s2 else exit s2)
               else s))"

definition componentWillUnmount :: "'n node \<Rightarrow> 'n node" where
  "componentWillUnmount s = unschedule s"

subsection \<open>Runs of a node\<close>

text \<open>
  What can happen to a mounted node: the host calls a lifecycle hook (with the props of the
  new render, for an update), the environment runs a timeout, or the holder of a ref calls
  one of the public methods. A run threads the current props and the node through a list of
  such events and stops at the first throw.
\<close>

datatype 'n event =
  Mount
| Update "'n props"
| Fire nat
| UpdateDuration "'n durationValue option"
| Enter
| Exit
| Unmount

fun step :: "('n::{zero,numeral}) event \<Rightarrow> 'n props \<times> 'n node \<Rightarrow> error + 'n props \<times> 'n node" where
  "step Mount (p, s) = (case componentDidMount p s of Inl e \<Rightarrow> Inl e | Inr s' \<Rightarrow> Inr (p, s'))"
| "step (Update p') (p, s) =
     (case componentDidUpdate p' s of Inl e \<Rightarrow> Inl e | Inr s' \<Rightarrow> Inr (p', s'))"
| "step (Fire i) (p, s) = Inr (p, fire p i s)"
| "step (UpdateDuration d) (p, s) = Inr (p, updateDuration d s)"
| "step Enter (p, s) = Inr (p, enter p s)"
| "step Exit (p, s) = Inr (p, exit s)"
| "step Unmount (p, s) = Inr (p, componentWillUnmount s)"

fun run :: "('n::{zero,numeral}) event list \<Rightarrow> 'n props \<times> 'n node \<Rightarrow> error + 'n props \<times> 'n node" where
  "run [] c = Inr c"
| "run (e # es) c = (case step e c of Inl x \<Rightarrow> Inl x | Inr c' \<Rightarrow> run es c')"

text \<open>What a node has emitted since an earlier moment of the same run.\<close>

definition emitted :: "'n node \<Rightarrow> 'n node \<Rightarrow> 'n effect list" where
  "emitted s s' = drop (length (effects s)) (effects s')"

definition onActivateCalls :: "'n effect list \<Rightarrow> bool list" where
  "onActivateCalls es = concat (map (\<lambda>e. case e of OnActivate b \<Rightarrow> [b] | _ \<Rightarrow> []) es)"

definition isTimerCall :: "'n effect \<Rightarrow> bool" where
  "isTimerCall e = (case e of ClearTimeout _ \<Rightarrow> True | SetTimeout _ _ _ \<Rightarrow> True | _ \<Rightarrow> False)"

definition isUpdateDuration :: "'n event \<Rightarrow> bool" where
  "isUpdateDuration e = (case e of UpdateDuration _ \<Rightarrow> True | _ \<Rightarrow> False)"

text \<open>
  The single-slot discipline of the scheduler, as a property of a node: the only timeout
  that can be pending is the one whose id the slot holds, and that id has been handed out.
\<close>

definition wf_node :: "'n node \<Rightarrow> bool" where
  "wf_node s =
     (dom (timers s) \<subseteq> set_option (scheduleTimeout s)
      \<and> (\<forall>i \<in> set_option (scheduleTimeout s). i < nextTimer s))"

text \<open>
  The flow state a trace leaves behind: the argument of the last \<^verbatim>\<open>setState\<close> in it, or the
  state before the trace if it has none.
\<close>

definition flowAfter :: "FlowState \<Rightarrow> 'n effect list \<Rightarrow> FlowState" where
  "flowAfter fv es = foldl (\<lambda>v e. case e of SetState w \<Rightarrow> w | _ \<Rightarrow> v) fv es"

text \<open>
  A later moment \<open>s'\<close> of a node \<open>s\<close>: the trace has only grown, the flow state is the one
  the new part of the trace leaves behind, and each marker is set exactly if it was set
  before or the new part holds a transition into its state.
\<close>

definition follows :: "'n node \<Rightarrow> 'n node \<Rightarrow> bool" where
  "follows s s' =
     (take (length (effects s)) (effects s') = effects s
      \<and> flowValue s' = flowAfter (flowValue s) (emitted s s')
      \<and> flowHasEntered s' = (flowHasEntered s \<or> SetState ENTERED \<in> set (emitted s s'))
      \<and> flowHasExited s' = (flowHasExited s \<or> SetState EXITED \<in> set (emitted s s')))"

text \<open>
  The props on which \<^verbatim>\<open>isActivated\<close> does not throw, and the runs that meet no others.
\<close>

definition safeProps :: "'n props \<Rightarrow> bool" where
  "safeProps q = (root q \<noteq> Some False \<or> parentEnergyContext q \<noteq> None)"

fun safeRun :: "'n props \<Rightarrow> 'n event list \<Rightarrow> bool" where
  "safeRun p [] = True"
| "safeRun p (Mount # es) = (safeProps p \<and> safeRun p es)"
| "safeRun p (Update q # es) = (safeProps q \<and> safeRun q es)"
| "safeRun p (e # es) = safeRun p es"

text \<open>
  The node as \<^verbatim>\<open>componentDidUpdate\<close> has it when it goes on to call \<^verbatim>\<open>enter()\<close> or
  \<^verbatim>\<open>exit()\<close>: the new activation recorded and \<^verbatim>\<open>onActivate\<close>, if there is one, called.
\<close>

definition recordActivation :: "'n props \<Rightarrow> bool \<Rightarrow> 'n node \<Rightarrow> 'n node" where
  "recordActivation p a s =
     (if onActivate p then s\<lparr>activated := a, effects := effects s @ [OnActivate a]\<rparr>
      else s\<lparr>activated := a\<rparr>)"

subsection \<open>The specification's resolver\<close>

text \<open>
  The duration cascade as the specification words it: the layers from the highest
  precedence down, each field taken from the first layer that defines it, an undefined
  field falling through to the next-lower layer. A bare number is the layer defining
  \<^verbatim>\<open>enter\<close> and \<^verbatim>\<open>exit\<close> only; an absent input is the empty layer.
\<close>

fun spec_highest :: "'n durationObject list \<Rightarrow> string \<Rightarrow> 'n jsvalue option" where
  "spec_highest [] k = None"
| "spec_highest (layer # lower) k =
     (case layer k of Some (Number n) \<Rightarrow> Some (Number n) | _ \<Rightarrow> spec_highest lower k)"

definition spec_layer :: "'n durationValue option \<Rightarrow> 'n durationObject" where
  "spec_layer v =
     (case v of
        None \<Rightarrow> Map.empty
      | Some (DurationNumber n) \<Rightarrow>
          (\<lambda>k. if k = ''enter'' \<or> k = ''exit'' then Some (Number n) else None)
      | Some (DurationObject m) \<Rightarrow> m)"

definition spec_default :: "('n::{zero,numeral}) durationObject" where
  "spec_default =
     (\<lambda>k. if k = ''enter'' then Some (Number 200) else if k = ''exit'' then Some (Number 200)
          else if k = ''delay'' then Some (Number 0) else None)"

definition spec_layers ::
  "('n::{zero,numeral}) durationObject option \<Rightarrow> 'n durationValue option \<Rightarrow> 'n durationValue option
     \<Rightarrow> 'n durationObject list" where
  "spec_layers ambient declared override =
     [spec_layer override, spec_layer declared,
      (case ambient of None \<Rightarrow> Map.empty | Some m \<Rightarrow> m), spec_default]"

definition spec_resolve ::
  "('n::{zero,numeral}) durationObject option \<Rightarrow> 'n durationValue option \<Rightarrow> 'n durationValue option
     \<Rightarrow> 'n durationObject" where
  "spec_resolve ambient declared override = spec_highest (spec_layers ambient declared override)"

text \<open>
  The same cascade with a field taken from the first layer that has it as an own property,
  whatever the value there.
\<close>

fun own_highest :: "('k \<rightharpoonup> 'v) list \<Rightarrow> 'k \<Rightarrow> 'v option" where
  "own_highest [] k = None"
| "own_highest (layer # lower) k =
     (case layer k of Some v \<Rightarrow> Some v | None \<Rightarrow> own_highest lower k)"

definition own_resolve ::
  "('n::{zero,numeral}) durationObject option \<Rightarrow> 'n durationValue option \<Rightarrow> 'n durationValue option
     \<Rightarrow> 'n durationObject" where
  "own_resolve ambient declared override = own_highest (spec_layers ambient declared override)"

text \<open>A field that one of the three inputs holds with the value \<^verbatim>\<open>undefined\<close>.\<close>

definition givenUndefined ::
  "'n durationObject option \<Rightarrow> 'n durationValue option \<Rightarrow> 'n durationValue option \<Rightarrow> string \<Rightarrow> bool"
  where
  "givenUndefined ambient declared override k =
     (spread ambient k = Some Undefined \<or> spec_layer declared k = Some Undefined
      \<or> spec_layer override k = Some Undefined)"

text \<open>
  The calls of \<^verbatim>\<open>onActivate\<close> a run owes when the activation last observed before it is
  \<open>prev\<close>, counting the updates that run with animation enabled: each of them observes an
  activation, and owes one call, with the new value, if it differs from the one observed
  before. An update with animation disabled, mount, a timeout and a method call owe none.
\<close>

fun spec_calls :: "bool \<Rightarrow> 'n event list \<Rightarrow> bool list" where
  "spec_calls prev [] = []"
| "spec_calls prev (Update q # es) =
     (case isActivated q of
        Inl e \<Rightarrow> []
      | Inr a \<Rightarrow>
          if isAnimate q
          then (if a \<noteq> prev \<and> onActivate q then [a] else []) @ spec_calls a es
          else spec_calls prev es)"
| "spec_calls prev (e # es) = spec_calls prev es"

text \<open>The activation last observed, in the same count, after a run.\<close>

fun lastObserved :: "bool \<Rightarrow> 'n event list \<Rightarrow> bool" where
  "lastObserved prev [] = prev"
| "lastObserved prev (Update q # es) =
     (case isActivated q of
        Inl e \<Rightarrow> prev
      | Inr a \<Rightarrow> if isAnimate q then lastObserved a es else lastObserved prev es)"
| "lastObserved prev (e # es) = lastObserved prev es"

subsection \<open>Concrete props and nodes\<close>

definition plainContext :: "int animationContext" where
  "plainContext = \<lparr>context_animate = None, context_duration = None\<rparr>"

definition rootProps :: "int props" where
  "rootProps =
     \<lparr>animate = None, root = None, activate = None, duration = None, merge = None,
      onActivate = True, animationContext = plainContext, parentEnergyContext = None\<rparr>"

text \<open>A node on its way out: \<open>EXITING\<close>, with the transition to \<open>EXITED\<close> pending.\<close>

definition exitingNode :: "int node" where
  "exitingNode =
     \<lparr>flowValue = EXITING, stateEnergyInterface = getEnergyInterface EXITING,
      flowHasEntered = True, flowHasExited = False, activated = False,
      customDuration = None, scheduleTimeout = Some 3,
      timers = [3 \<mapsto> (Number 200, SetFlowValueCallback EXITED)], nextTimer = 4, effects = []\<rparr>"

text \<open>A node still \<open>EXITED\<close>, waiting for the delay of an \<^verbatim>\<open>enter()\<close> to run out.\<close>

definition delayedNode :: "int node" where
  "delayedNode =
     \<lparr>flowValue = EXITED, stateEnergyInterface = getEnergyInterface EXITED,
      flowHasEntered = False, flowHasExited = False, activated = True,
      customDuration = None, scheduleTimeout = Some 0,
      timers = [0 \<mapsto> (Number 500, EnterCallback)], nextTimer = 1, effects = []\<rparr>"

text \<open>A node forced out of the root role with no parent above it.\<close>

definition orphanProps :: "int props" where
  "orphanProps = rootProps\<lparr>root := Some False\<rparr>"

text \<open>A nested node under a parent that is \<open>ENTERING\<close>.\<close>

definition childProps :: "int props" where
  "childProps = rootProps\<lparr>parentEnergyContext := Some (getEnergyInterface ENTERING)\<rparr>"

text \<open>A root whose declared duration holds \<^verbatim>\<open>enter\<close> and \<^verbatim>\<open>delay\<close> as \<^verbatim>\<open>undefined\<close>.\<close>

definition undefinedProps :: "int props" where
  "undefinedProps =
     rootProps\<lparr>duration := Some (DurationObject [''enter'' \<mapsto> Undefined, ''delay'' \<mapsto> Undefined])\<rparr>"

text \<open>A node that has entered, its activation recorded, nothing pending.\<close>

definition enteredNode :: "int node" where
  "enteredNode =
     \<lparr>flowValue = ENTERED, stateEnergyInterface = getEnergyInterface ENTERED,
      flowHasEntered = True, flowHasExited = False, activated = True,
      customDuration = None, scheduleTimeout = Some 1,
      timers = Map.empty, nextTimer = 2, effects = []\<rparr>"

section \<open>Properties\<close>

text \<open>The definitions a concrete run unfolds to.\<close>

lemmas eval_defs = rootProps_def plainContext_def constructor_def getInitialState_def isAnimate_def
  isActivated_def isRoot_def componentDidMount_def componentDidUpdate_def enter_def exit_def
  schedule_def unschedule_def setFlowValue_def fire_def runCallback_def getDuration_def
  defaultDuration_def numberToObject_def spread_def Let_def updateDuration_def

subsection \<open>Creation\<close>

text \<open>
  C6. At creation the flow state is \<open>EXITED\<close> when animation is enabled for the node and
  \<open>ENTERED\<close> otherwise, where animation is enabled by default, the ambient
  \<^verbatim>\<open>animate\<close> flag overrides the default, and the node's own \<^verbatim>\<open>animate\<close> prop
  overrides the ambient flag.
\<close>

theorem initial_flow_state:
  "flowValue (constructor p) =
     (if (case animate p of
            Some b \<Rightarrow> b
          | None \<Rightarrow> (case context_animate (animationContext p) of Some b \<Rightarrow> b | None \<Rightarrow> True))
      then EXITED else ENTERED)
   \<and> isAnimate p =
     (case animate p of
        Some b \<Rightarrow> b
      | None \<Rightarrow> (case context_animate (animationContext p) of Some b \<Rightarrow> b | None \<Rightarrow> True))"
  by (simp add: constructor_def getInitialState_def isAnimate_def split: option.splits)

subsection \<open>The duration resolver\<close>

lemma overlay_own: "(a ++ b ++ c ++ d) k = own_highest [d, c, b, a] k"
  by (simp add: map_add_def split: option.splits)

lemma spec_layer_spread: "spec_layer v = spread (numberToObject v)"
  by (auto simp: spec_layer_def spread_def numberToObject_def
           split: option.splits durationValue.splits)

lemma spec_default_eq: "spec_default = defaultDuration"
  by (auto simp: spec_default_def defaultDuration_def)

lemma getDuration_layers:
  "getDuration p s =
     own_highest [spread (customDuration s), spec_layer (duration p),
                  spread (context_duration (animationContext p)), spec_default]"
proof
  fix k
  have "getDuration p s k =
        (defaultDuration ++ spread (context_duration (animationContext p))
           ++ spread (numberToObject (duration p)) ++ spread (customDuration s)) k"
    by (simp add: getDuration_def)
  also have "\<dots> =
        own_highest [spread (customDuration s), spread (numberToObject (duration p)),
                     spread (context_duration (animationContext p)), defaultDuration] k"
    by (rule overlay_own)
  finally show "getDuration p s k =
        own_highest [spread (customDuration s), spec_layer (duration p),
                     spread (context_duration (animationContext p)), spec_default] k"
    by (simp add: spec_layer_spread spec_default_eq)
qed

lemma customDuration_updateDuration [simp]:
  "customDuration (updateDuration d s) = numberToObject d"
  by (simp add: updateDuration_def)

lemma getDuration_resolve:
  "customDuration s = numberToObject ov \<Longrightarrow>
   getDuration p s = own_resolve (context_duration (animationContext p)) (duration p) ov"
  by (simp add: getDuration_layers own_resolve_def spec_layers_def spec_layer_spread spread_def)

lemma own_highest_spec:
  "list_all (\<lambda>layer. layer k \<noteq> Some Undefined) layers \<Longrightarrow>
   own_highest layers k = spec_highest layers k"
  by (induction layers) (auto split: option.splits jsvalue.splits)

lemma spec_default_defined: "spec_default k \<noteq> Some Undefined"
  by (simp add: spec_default_def)

lemma spec_highest_lowest:
  "d k = Some (Number n) \<Longrightarrow> \<exists>m. spec_highest [a, b, c, d] k = Some (Number m)"
  by (simp split: option.splits jsvalue.splits)

lemma spec_default_number:
  "k \<in> {''enter'', ''exit'', ''delay''} \<Longrightarrow> \<exists>n. spec_default k = Some (Number n)"
  by (auto simp: spec_default_def)

lemma spec_highest_default:
  fixes a :: "('n::{zero,numeral}) durationObject"
  assumes "k \<in> {''enter'', ''exit'', ''delay''}"
  shows "\<exists>n. spec_highest [a, b, c, spec_default] k = Some (Number n)"
proof -
  from spec_default_number [OF assms]
  obtain n :: 'n where "spec_default k = Some (Number n)" ..
  then show ?thesis by (rule spec_highest_lowest)
qed

lemma own_resolve_spec:
  assumes "\<not> givenUndefined ambient declared override k"
  shows "own_resolve ambient declared override k = spec_resolve ambient declared override k"
proof -
  from assms have "list_all (\<lambda>layer. layer k \<noteq> Some Undefined)
                     (spec_layers ambient declared override)"
    by (simp add: givenUndefined_def spec_layers_def spread_def spec_default_defined)
  then show ?thesis
    by (simp add: own_resolve_def spec_resolve_def own_highest_spec)
qed

text \<open>
  C2, as stated, fails. The declared duration \<open>{enter: undefined, delay: undefined}\<close> does
  not define \<^verbatim>\<open>enter\<close>, so by the claim the resolved \<^verbatim>\<open>enter\<close> is the built-in \<open>200\<close>;
  the object spread copies the property all the same, and the resolved \<^verbatim>\<open>enter\<close> and
  \<^verbatim>\<open>delay\<close> are \<^verbatim>\<open>undefined\<close>.
\<close>

theorem duration_undefined_field_counterexample:
  "spec_resolve (context_duration (animationContext undefinedProps)) (duration undefinedProps)
      None ''enter'' = Some (Number 200)
   \<and> getDuration undefinedProps (updateDuration None (constructor undefinedProps)) ''enter''
       = Some Undefined
   \<and> readField (getDuration undefinedProps (constructor undefinedProps)) ''delay'' = Undefined"
  by (simp add: undefinedProps_def rootProps_def plainContext_def spec_resolve_def
      spec_layers_def spec_layer_def spec_default_def getDuration_def defaultDuration_def
      numberToObject_def spread_def updateDuration_def constructor_def readField_def
      split: prod.splits)

text \<open>
  C2, amended. Whatever the ambient configuration, the declared duration (a bare number or
  a partial object) and the override are, the resolved duration is the overlay by own
  property: field by field, the value of the highest layer that has the field, in the order
  override, declared, ambient, built-in default \<open>{enter: 200, exit: 200, delay: 0}\<close>; a
  bare number has \<^verbatim>\<open>enter\<close> and \<^verbatim>\<open>exit\<close> only and an absent input has no field. For a
  field that none of the three inputs holds with the value \<^verbatim>\<open>undefined\<close>, this is the
  specification's overlay, the value of the highest layer that defines the field, and for
  \<^verbatim>\<open>enter\<close>, \<^verbatim>\<open>exit\<close> and \<^verbatim>\<open>delay\<close> it is a number.
\<close>

theorem duration_resolution:
  "getDuration p (updateDuration override s) =
     own_resolve (context_duration (animationContext p)) (duration p) override
   \<and> (\<not> givenUndefined (context_duration (animationContext p)) (duration p) override k \<longrightarrow>
        getDuration p (updateDuration override s) k =
          spec_resolve (context_duration (animationContext p)) (duration p) override k)
   \<and> (\<not> givenUndefined (context_duration (animationContext p)) (duration p) override k
        \<and> k \<in> {''enter'', ''exit'', ''delay''} \<longrightarrow>
        (\<exists>n. getDuration p (updateDuration override s) k = Some (Number n)))"
proof -
  let ?amb = "context_duration (animationContext p)"
  have own: "getDuration p (updateDuration override s) = own_resolve ?amb (duration p) override"
    by (simp add: getDuration_resolve)
  have spec: "getDuration p (updateDuration override s) k = spec_resolve ?amb (duration p) override k"
    if "\<not> givenUndefined ?amb (duration p) override k"
    using that by (simp add: own own_resolve_spec)
  have num: "\<exists>n. getDuration p (updateDuration override s) k = Some (Number n)"
    if "\<not> givenUndefined ?amb (duration p) override k" "k \<in> {''enter'', ''exit'', ''delay''}"
    using spec [OF that(1)] spec_highest_default [OF that(2)]
    by (simp add: spec_resolve_def spec_layers_def)
  from own spec num show ?thesis by blast
qed

theorem duration_resolution_witness:
  "\<not> givenUndefined (context_duration (animationContext undefinedProps))
        (duration undefinedProps) (Some (DurationNumber 300)) ''exit''
   \<and> ''exit'' \<in> {''enter'', ''exit'', ''delay''}
   \<and> getDuration undefinedProps
        (updateDuration (Some (DurationNumber 300)) (constructor undefinedProps)) ''exit''
       = Some (Number 300)
   \<and> spec_resolve (context_duration (animationContext undefinedProps))
        (duration undefinedProps) (Some (DurationNumber 300)) ''exit'' = Some (Number 300)
   \<and> getDuration undefinedProps
        (updateDuration (Some (DurationNumber 300)) (constructor undefinedProps)) ''delay''
       = Some Undefined"
proof -
  have g: "\<not> givenUndefined (context_duration (animationContext undefinedProps))
        (duration undefinedProps) (Some (DurationNumber 300)) ''exit''"
    by (simp add: givenUndefined_def undefinedProps_def rootProps_def plainContext_def
        spread_def spec_layer_def)
  have r: "spec_resolve (context_duration (animationContext undefinedProps))
        (duration undefinedProps) (Some (DurationNumber 300)) ''exit'' = Some (Number 300)"
    by (simp add: spec_resolve_def spec_layers_def spec_layer_def)
  have o: "own_resolve (context_duration (animationContext undefinedProps))
        (duration undefinedProps) (Some (DurationNumber 300)) ''delay'' = Some Undefined"
    by (simp add: own_resolve_def spec_layers_def spec_layer_def undefinedProps_def rootProps_def)
  note t = duration_resolution [of undefinedProps "Some (DurationNumber 300)"
      "constructor undefinedProps" "''exit''"]
  from t g r have e: "getDuration undefinedProps
        (updateDuration (Some (DurationNumber 300)) (constructor undefinedProps)) ''exit''
       = Some (Number 300)"
    by metis
  from t have "getDuration undefinedProps
        (updateDuration (Some (DurationNumber 300)) (constructor undefinedProps))
       = own_resolve (context_duration (animationContext undefinedProps))
           (duration undefinedProps) (Some (DurationNumber 300))"
    by blast
  then have d: "getDuration undefinedProps
        (updateDuration (Some (DurationNumber 300)) (constructor undefinedProps)) ''delay''
       = Some Undefined"
    by (simp only: o)
  from g r e d show ?thesis by simp
qed

text \<open>
  C10. An override call replaces the stored override as a whole: after any two calls the
  stored override is the second argument alone. So after overriding with \<open>{delay: d}\<close>
  (which made the resolved delay \<open>d\<close>) and then with the bare number \<open>n\<close>, the stored
  override is \<open>{enter: n, exit: n}\<close>, the resolved delay is what the default, ambient and
  declared layers give, and the resolved \<^verbatim>\<open>enter\<close> and \<^verbatim>\<open>exit\<close> are \<open>n\<close>.
\<close>

theorem override_replaces_wholesale:
  "customDuration (updateDuration d2 (updateDuration d1 s)) = numberToObject d2
   \<and> getDuration p (updateDuration (Some (DurationObject [''delay'' \<mapsto> d])) s) ''delay'' = Some d
   \<and> customDuration
        (updateDuration (Some (DurationNumber n))
           (updateDuration (Some (DurationObject [''delay'' \<mapsto> d])) s))
       = Some [''enter'' \<mapsto> Number n, ''exit'' \<mapsto> Number n]
   \<and> getDuration p
        (updateDuration (Some (DurationNumber n))
           (updateDuration (Some (DurationObject [''delay'' \<mapsto> d])) s)) ''delay''
       = (defaultDuration ++ spread (context_duration (animationContext p))
            ++ spread (numberToObject (duration p))) ''delay''
   \<and> getDuration p
        (updateDuration (Some (DurationNumber n))
           (updateDuration (Some (DurationObject [''delay'' \<mapsto> d])) s)) ''enter''
       = Some (Number n)
   \<and> getDuration p
        (updateDuration (Some (DurationNumber n))
           (updateDuration (Some (DurationObject [''delay'' \<mapsto> d])) s)) ''exit''
       = Some (Number n)"
  by (simp add: updateDuration_def numberToObject_def getDuration_def spread_def map_add_def)

subsection \<open>The guards of enter and exit\<close>

text \<open>
  C5. \<^verbatim>\<open>enter()\<close> on a node that is \<open>ENTERING\<close> or \<open>ENTERED\<close>, and \<^verbatim>\<open>exit()\<close> on a node
  that is \<open>EXITING\<close> or \<open>EXITED\<close>, return the node as it was: the flow state, the timer
  slot, the table of pending timeouts and the trace of calls are all unchanged.
\<close>

theorem enter_exit_noop:
  "(flowValue s \<in> {ENTERING, ENTERED} \<longrightarrow> enter p s = s)
   \<and> (flowValue s \<in> {EXITING, EXITED} \<longrightarrow> exit s = s)"
  by (auto simp: enter_def exit_def)

theorem enter_exit_noop_witness:
  "flowValue (constructor (rootProps\<lparr>animate := Some False\<rparr>)) \<in> {ENTERING, ENTERED}
   \<and> enter rootProps (constructor (rootProps\<lparr>animate := Some False\<rparr>))
       = constructor (rootProps\<lparr>animate := Some False\<rparr>)
   \<and> flowValue delayedNode \<in> {EXITING, EXITED}
   \<and> exit delayedNode = delayedNode"
  using enter_exit_noop [of "constructor (rootProps\<lparr>animate := Some False\<rparr>)" rootProps]
        enter_exit_noop [of delayedNode rootProps]
  by (simp add: constructor_def getInitialState_def isAnimate_def rootProps_def delayedNode_def)

subsection \<open>The activation evaluator\<close>

text \<open>
  C3, as stated, fails. A node with \<^verbatim>\<open>root={false}\<close> and no parent context is not a root,
  its parent propagation source is missing, and \<^verbatim>\<open>isActivated\<close> reads
  \<^verbatim>\<open>this.props.parentEnergyContext.flow\<close> of \<^verbatim>\<open>undefined\<close>: it throws instead of returning
  \<^verbatim>\<open>false\<close>.
\<close>

theorem activation_missing_parent_counterexample:
  "\<not> isRoot orphanProps \<and> parentEnergyContext orphanProps = None
   \<and> isActivated orphanProps = Inl TypeError \<and> isActivated orphanProps \<noteq> Inr False"
  by (simp add: orphanProps_def rootProps_def isRoot_def isActivated_def Let_def)

lemma flag_getEnergyInterface:
  "flow_flags (flow (getEnergyInterface fv)) k = (if k = fv then Some True else None)"
  by (simp add: getEnergyInterface_def)

text \<open>
  C3, amended. The evaluator fails exactly when the node is forced out of the root role
  (\<^verbatim>\<open>root={false}\<close>) and has no parent context. A node with no parent context and no such
  flag is a root and evaluates to its \<^verbatim>\<open>activate\<close> prop, or \<open>true\<close> without one. A
  non-root node with a parent context evaluates, without failing, to: parent entering or
  entered under \<^verbatim>\<open>merge\<close>, parent entered otherwise.
\<close>

theorem activation_evaluator:
  "(isActivated p = Inl TypeError \<longleftrightarrow> root p = Some False \<and> parentEnergyContext p = None)
   \<and> (parentEnergyContext p = None \<and> root p \<noteq> Some False \<longrightarrow>
        isRoot p \<and> isActivated p = Inr (case activate p of Some b \<Rightarrow> b | None \<Rightarrow> True))
   \<and> (\<not> isRoot p \<and> parentEnergyContext p = Some parent \<longrightarrow>
        isActivated p =
          Inr (if truthy (merge p)
               then flow_flags (flow parent) ENTERING = Some True
                    \<or> flow_flags (flow parent) ENTERED = Some True
               else flow_flags (flow parent) ENTERED = Some True))
   \<and> (\<not> isRoot p \<and> parentEnergyContext p = Some (getEnergyInterface fv) \<longrightarrow>
        isActivated p =
          Inr (if truthy (merge p) then fv = ENTERING \<or> fv = ENTERED else fv = ENTERED))"
  by (auto simp: isActivated_def isRoot_def truthy_def js_or_def Let_def flag_getEnergyInterface
           split: option.splits)

theorem activation_evaluator_witness:
  "isActivated orphanProps = Inl TypeError
   \<and> root orphanProps = Some False \<and> parentEnergyContext orphanProps = None
   \<and> parentEnergyContext rootProps = None \<and> root rootProps \<noteq> Some False
   \<and> isRoot rootProps \<and> isActivated rootProps = Inr True
   \<and> \<not> isRoot childProps \<and> parentEnergyContext childProps = Some (getEnergyInterface ENTERING)
   \<and> isActivated childProps = Inr False
   \<and> isActivated (childProps\<lparr>merge := Some True\<rparr>) = Inr True"
  using activation_evaluator [of orphanProps] activation_evaluator [of rootProps]
        activation_evaluator [of childProps _ ENTERING]
        activation_evaluator [of "childProps\<lparr>merge := Some True\<rparr>" _ ENTERING]
  by (simp add: orphanProps_def rootProps_def childProps_def isRoot_def truthy_def Let_def)

subsection \<open>The scheduler\<close>

lemma timers_unschedule: "wf_node s \<Longrightarrow> timers (unschedule s) = Map.empty"
  by (auto simp: wf_node_def unschedule_def fun_eq_iff split: option.splits)

lemma wf_schedule: "wf_node s \<Longrightarrow> wf_node (schedule t cb s)"
  by (auto simp: wf_node_def schedule_def unschedule_def Let_def split: option.splits if_splits)

lemma schedule_fields [simp]:
  "flowValue (schedule t cb s) = flowValue s"
  "stateEnergyInterface (schedule t cb s) = stateEnergyInterface s"
  "flowHasEntered (schedule t cb s) = flowHasEntered s"
  "flowHasExited (schedule t cb s) = flowHasExited s"
  "activated (schedule t cb s) = activated s"
  "customDuration (schedule t cb s) = customDuration s"
  "scheduleTimeout (schedule t cb s) = Some (nextTimer s)"
  "nextTimer (schedule t cb s) = Suc (nextTimer s)"
  "effects (schedule t cb s) = effects s @ [ClearTimeout (scheduleTimeout s), SetTimeout (nextTimer s) t cb]"
  by (simp_all add: schedule_def unschedule_def Let_def)

lemma timers_schedule: "wf_node s \<Longrightarrow> timers (schedule t cb s) = [nextTimer s \<mapsto> (t, cb)]"
  using timers_unschedule [of s] by (simp add: schedule_def Let_def unschedule_def)

lemma timers_schedule_new [simp]: "timers (schedule t cb s) (nextTimer s) = Some (t, cb)"
  by (simp add: schedule_def Let_def unschedule_def)

lemma setFlowValue_fields [simp]:
  "flowValue (setFlowValue fv s) = fv"
  "stateEnergyInterface (setFlowValue fv s) = getEnergyInterface fv"
  "flowHasEntered (setFlowValue fv s) = (fv = ENTERED \<or> flowHasEntered s)"
  "flowHasExited (setFlowValue fv s) = (fv = EXITED \<or> flowHasExited s)"
  "activated (setFlowValue fv s) = activated s"
  "customDuration (setFlowValue fv s) = customDuration s"
  "scheduleTimeout (setFlowValue fv s) = scheduleTimeout s"
  "timers (setFlowValue fv s) = timers s"
  "nextTimer (setFlowValue fv s) = nextTimer s"
  "effects (setFlowValue fv s) = effects s @ [SetState fv]"
  by (auto simp: setFlowValue_def)

lemma wf_setFlowValue [simp]: "wf_node (setFlowValue fv s) = wf_node s"
  by (simp add: wf_node_def)

lemma wf_cleared: "wf_node s \<Longrightarrow> wf_node (s\<lparr>timers := (timers s)(i := None)\<rparr>)"
  by (auto simp: wf_node_def split: if_splits)

lemma getDuration_cong: "customDuration s' = customDuration s \<Longrightarrow> getDuration p s' = getDuration p s"
  by (simp add: getDuration_def)

lemma wf_runCallback: "wf_node s \<Longrightarrow> wf_node (runCallback p cb s)"
  by (cases cb) (simp_all add: runCallback_def wf_schedule)

lemma wf_fire: "wf_node s \<Longrightarrow> wf_node (fire p i s)"
  by (auto simp: fire_def wf_runCallback wf_cleared split: option.splits)

lemma wf_enter: "wf_node s \<Longrightarrow> wf_node (enter p s)"
  by (simp add: enter_def Let_def wf_schedule)

lemma wf_exit: "wf_node s \<Longrightarrow> wf_node (exit s)"
  by (simp add: exit_def Let_def wf_schedule)

lemma wf_constructor: "wf_node (constructor p)"
  by (simp add: constructor_def wf_node_def split: prod.splits)

lemma emitted_append: "effects s' = effects s @ new \<Longrightarrow> emitted s s' = new"
  by (simp add: emitted_def)

lemma getDuration_timers [simp]: "getDuration p (s\<lparr>timers := t\<rparr>) = getDuration p s"
  by (simp add: getDuration_def)

lemma fire_pending:
  "timers s i = Some (t, cb) \<Longrightarrow> fire p i s = runCallback p cb (s\<lparr>timers := (timers s)(i := None)\<rparr>)"
  by (simp add: fire_def)

lemma fire_not_pending: "timers s i = None \<Longrightarrow> fire p i s = s"
  by (simp add: fire_def)

subsection \<open>Entering\<close>

text \<open>
  C1. Take a node that respects the single-slot discipline and is neither \<open>ENTERING\<close> nor
  \<open>ENTERED\<close>. \<^verbatim>\<open>enter()\<close> leaves the flow state alone and replaces whatever was pending by
  one timeout, of delay \<^verbatim>\<open>duration.delay\<close> if the node is \<open>EXITED\<close> and \<open>0\<close> otherwise;
  every timeout that was pending before (the transition to \<open>EXITED\<close> of an interrupted
  exit) is cancelled and running its id does nothing. When the new timeout runs, with the
  props \<open>p'\<close> of that moment, the node becomes \<open>ENTERING\<close> and the only pending timeout is
  the transition to \<open>ENTERED\<close>, after the \<^verbatim>\<open>enter\<close> duration read again from \<open>p'\<close> (and from
  an override set in between); when that one runs the node is \<open>ENTERED\<close> and nothing is
  pending.
\<close>

theorem enter_schedules_entry:
  fixes s :: "('n::{zero,numeral}) node" and p p' p'' :: "'n props"
  assumes wf: "wf_node s" and fv: "flowValue s \<noteq> ENTERING" "flowValue s \<noteq> ENTERED"
  defines "delay \<equiv> (if flowValue s = EXITED then readField (getDuration p s) ''delay'' else Number 0)"
  defines "i \<equiv> nextTimer s"
  defines "s1 \<equiv> enter p s"
  defines "s2 \<equiv> fire p' i s1"
  defines "s3 \<equiv> fire p'' (Suc i) s2"
  shows "flowValue s1 = flowValue s \<and> scheduleTimeout s1 = Some i
     \<and> timers s1 = [i \<mapsto> (delay, EnterCallback)]
     \<and> emitted s s1 = [ClearTimeout (scheduleTimeout s), SetTimeout i delay EnterCallback]
     \<and> (\<forall>j t cb. timers s j = Some (t, cb) \<longrightarrow> timers s1 j = None \<and> fire p' j s1 = s1)
     \<and> flowValue s2 = ENTERING \<and> scheduleTimeout s2 = Some (Suc i)
     \<and> timers s2 = [Suc i \<mapsto> (readField (getDuration p' s) ''enter'', SetFlowValueCallback ENTERED)]
     \<and> emitted s1 s2 = [SetState ENTERING, ClearTimeout (Some i),
           SetTimeout (Suc i) (readField (getDuration p' s) ''enter'') (SetFlowValueCallback ENTERED)]
     \<and> timers (fire p' i (updateDuration ov s1)) =
          [Suc i \<mapsto> (readField (getDuration p' (updateDuration ov s)) ''enter'', SetFlowValueCallback ENTERED)]
     \<and> flowValue s3 = ENTERED \<and> timers s3 = Map.empty \<and> emitted s2 s3 = [SetState ENTERED]"
proof -
  have s1: "s1 = schedule delay EnterCallback s"
    using fv by (simp add: s1_def enter_def delay_def Let_def)
  have t1: "timers s1 = [i \<mapsto> (delay, EnterCallback)]"
    using wf by (simp add: s1 timers_schedule i_def)
  have wf1: "wf_node s1" using wf by (simp add: s1 wf_schedule)
  have old: "\<forall>j t cb. timers s j = Some (t, cb) \<longrightarrow> timers s1 j = None \<and> fire p' j s1 = s1"
  proof (intro allI impI)
    fix j t cb assume "timers s j = Some (t, cb)"
    then have "j < i" using wf by (auto simp: wf_node_def i_def)
    then have "timers s1 j = None" by (simp add: t1)
    then show "timers s1 j = None \<and> fire p' j s1 = s1" by (simp add: fire_not_pending)
  qed
  define c1 where "c1 = s1\<lparr>timers := (timers s1)(i := None)\<rparr>"
  have wfc: "wf_node c1" unfolding c1_def using wf1 by (rule wf_cleared)
  have c1: "scheduleTimeout c1 = Some i" "nextTimer c1 = Suc i" "customDuration c1 = customDuration s"
    "effects c1 = effects s1"
    by (simp_all add: c1_def s1 i_def)
  have s2: "s2 = schedule (readField (getDuration p' s) ''enter'') (SetFlowValueCallback ENTERED) (setFlowValue ENTERING c1)"
    using t1 c1 by (simp add: s2_def fire_pending c1_def runCallback_def getDuration_cong [of s1 s])
  have t2: "timers s2 = [Suc i \<mapsto> (readField (getDuration p' s) ''enter'', SetFlowValueCallback ENTERED)]"
    using wfc c1 by (simp add: s2 timers_schedule)
  have e2: "effects s2 = effects s1 @ [SetState ENTERING, ClearTimeout (Some i),
           SetTimeout (Suc i) (readField (getDuration p' s) ''enter'') (SetFlowValueCallback ENTERED)]"
    using c1 by (simp add: s2)
  have s3: "s3 = setFlowValue ENTERED (s2\<lparr>timers := (timers s2)(Suc i := None)\<rparr>)"
    by (simp add: s3_def fire_pending t2 runCallback_def)
  define u1 where "u1 = updateDuration ov s1"
  define cu where "cu = u1\<lparr>timers := (timers u1)(i := None)\<rparr>"
  have u1: "timers u1 = timers s1" "scheduleTimeout u1 = Some i" "nextTimer u1 = Suc i"
    "customDuration u1 = customDuration (updateDuration ov s)"
    by (simp_all add: u1_def updateDuration_def s1 i_def)
  have wfu: "wf_node cu"
    using wf1 by (auto simp: cu_def u1_def updateDuration_def wf_node_def split: if_splits)
  have cu: "scheduleTimeout cu = Some i" "nextTimer cu = Suc i"
    "customDuration cu = customDuration (updateDuration ov s)"
    using u1 by (simp_all add: cu_def)
  have "fire p' i u1 = schedule (readField (getDuration p' (updateDuration ov s)) ''enter'')
          (SetFlowValueCallback ENTERED) (setFlowValue ENTERING cu)"
    using t1 u1
    by (simp add: fire_pending cu_def runCallback_def getDuration_cong [of u1 "updateDuration ov s"])
  then have tu: "timers (fire p' i (updateDuration ov s1)) =
          [Suc i \<mapsto> (readField (getDuration p' (updateDuration ov s)) ''enter'', SetFlowValueCallback ENTERED)]"
    using wfu cu by (simp add: u1_def [symmetric] timers_schedule)
  have a: "flowValue s1 = flowValue s \<and> scheduleTimeout s1 = Some i"
    by (simp add: s1 i_def)
  have b: "emitted s s1 = [ClearTimeout (scheduleTimeout s), SetTimeout i delay EnterCallback]"
    by (rule emitted_append) (simp add: s1 i_def)
  have c: "flowValue s2 = ENTERING \<and> scheduleTimeout s2 = Some (Suc i)"
    using c1 by (simp add: s2)
  have d: "emitted s1 s2 = [SetState ENTERING, ClearTimeout (Some i),
           SetTimeout (Suc i) (readField (getDuration p' s) ''enter'') (SetFlowValueCallback ENTERED)]"
    using e2 by (rule emitted_append)
  have "emitted s2 s3 = [SetState ENTERED]"
    by (rule emitted_append) (simp add: s3)
  then have e: "flowValue s3 = ENTERED \<and> timers s3 = Map.empty \<and> emitted s2 s3 = [SetState ENTERED]"
    by (simp add: s3 t2)
  from a t1 b old c t2 d tu e show ?thesis by blast
qed

theorem enter_schedules_entry_witness:
  "wf_node exitingNode \<and> flowValue exitingNode \<noteq> ENTERING \<and> flowValue exitingNode \<noteq> ENTERED
   \<and> timers exitingNode 3 = Some (Number 200, SetFlowValueCallback EXITED)
   \<and> timers (enter rootProps exitingNode) = [4 \<mapsto> (Number 0, EnterCallback)]
   \<and> timers (enter rootProps exitingNode) 3 = None
   \<and> flowValue (fire rootProps 4 (enter rootProps exitingNode)) = ENTERING
   \<and> timers (fire rootProps 4 (enter rootProps exitingNode))
        = [5 \<mapsto> (Number 200, SetFlowValueCallback ENTERED)]
   \<and> flowValue (fire rootProps 5 (fire rootProps 4 (enter rootProps exitingNode))) = ENTERED"
proof -
  have wf: "wf_node exitingNode"
    by (simp add: wf_node_def exitingNode_def)
  have fv: "flowValue exitingNode \<noteq> ENTERING" "flowValue exitingNode \<noteq> ENTERED"
    by (simp_all add: exitingNode_def)
  have old: "timers exitingNode 3 = Some (Number 200, SetFlowValueCallback EXITED)"
    by (simp add: exitingNode_def)
  have n: "nextTimer exitingNode = 4" "flowValue exitingNode = EXITING"
    by (simp_all add: exitingNode_def)
  have d: "readField (getDuration rootProps exitingNode) ''enter'' = Number 200"
    by (simp add: readField_def getDuration_def defaultDuration_def rootProps_def plainContext_def
        exitingNode_def numberToObject_def spread_def)
  from enter_schedules_entry [OF wf fv, where p = rootProps and p' = rootProps and p'' = rootProps] wf fv old
  show ?thesis
    by (simp add: n d)
qed

text \<open>
  The delay is handed to \<^verbatim>\<open>setTimeout\<close> as it is read: with a declared duration whose
  \<^verbatim>\<open>delay\<close> is \<^verbatim>\<open>undefined\<close>, the first \<^verbatim>\<open>enter()\<close> calls \<^verbatim>\<open>setTimeout(callback, undefined)\<close>.
\<close>

lemma enter_undefined_delay:
  "flowValue (constructor undefinedProps) = EXITED
   \<and> timers (enter undefinedProps (constructor undefinedProps)) 0 = Some (Undefined, EnterCallback)"
  by (simp add: undefinedProps_def eval_defs readField_def split: prod.splits)

subsection \<open>Leaving while an entry is delayed\<close>

text \<open>
  C9. Take a node that is \<open>EXITED\<close> while the delay timeout of an \<^verbatim>\<open>enter()\<close> is pending
  in its slot. \<^verbatim>\<open>exit()\<close> returns the node unchanged, the timeout still pending; so does
  the whole update that observes the deactivation (it only records the activation and
  calls \<^verbatim>\<open>onActivate\<close>). When the timeout runs the node becomes \<open>ENTERING\<close>, with the
  transition to \<open>ENTERED\<close> pending, and when that runs the node is \<open>ENTERED\<close>.
\<close>

theorem exit_keeps_pending_enter:
  fixes s :: "('n::{zero,numeral}) node" and p p' q :: "'n props"
  assumes "flowValue s = EXITED" and "scheduleTimeout s = Some i"
    and "timers s i = Some (t, EnterCallback)"
  defines "s2 \<equiv> fire p i (exit s)"
  shows "exit s = s \<and> timers (exit s) i = Some (t, EnterCallback)
     \<and> flowValue s2 = ENTERING
     \<and> timers s2 (nextTimer s) = Some (readField (getDuration p s) ''enter'', SetFlowValueCallback ENTERED)
     \<and> flowValue (fire p' (nextTimer s) s2) = ENTERED
     \<and> (isActivated q = Inr False \<longrightarrow>
          (case componentDidUpdate q s of
             Inl e \<Rightarrow> False
           | Inr s' \<Rightarrow>
               flowValue s' = EXITED \<and> scheduleTimeout s' = Some i \<and> timers s' = timers s
               \<and> flowValue (fire p' (nextTimer s) (fire p i s')) = ENTERED))"
proof -
  have scenario: "flowValue (fire p i x) = ENTERING
      \<and> timers (fire p i x) (nextTimer s) = Some (readField (getDuration p x) ''enter'', SetFlowValueCallback ENTERED)
      \<and> flowValue (fire p' (nextTimer s) (fire p i x)) = ENTERED"
    if x: "timers x i = Some (t, EnterCallback)" "nextTimer x = nextTimer s" for x
  proof -
    define c where "c = x\<lparr>timers := (timers x)(i := None)\<rparr>"
    have c: "nextTimer c = nextTimer s" "customDuration c = customDuration x"
      using x by (simp_all add: c_def)
    have f: "fire p i x = schedule (readField (getDuration p x) ''enter'') (SetFlowValueCallback ENTERED)
                 (setFlowValue ENTERING c)"
      using x by (simp add: fire_pending c_def runCallback_def)
    have n: "nextTimer (setFlowValue ENTERING c) = nextTimer s" using c by simp
    have t: "timers (fire p i x) (nextTimer s) = Some (readField (getDuration p x) ''enter'', SetFlowValueCallback ENTERED)"
      unfolding f n [symmetric] by (rule timers_schedule_new)
    show ?thesis
      using t by (simp add: fire_pending [OF t] runCallback_def) (simp add: f)
  qed
  have ex: "exit s = s" using assms(1) by (simp add: exit_def)
  have upd: "case componentDidUpdate q s of
             Inl e \<Rightarrow> False
           | Inr s' \<Rightarrow>
               flowValue s' = EXITED \<and> scheduleTimeout s' = Some i \<and> timers s' = timers s
               \<and> flowValue (fire p' (nextTimer s) (fire p i s')) = ENTERED"
    if q: "isActivated q = Inr False"
  proof -
    obtain s' where s': "componentDidUpdate q s = Inr s'"
      and same: "flowValue s' = EXITED" "scheduleTimeout s' = Some i" "timers s' = timers s"
        "nextTimer s' = nextTimer s"
      using q assms(1,2) by (auto simp: componentDidUpdate_def Let_def exit_def)
    from scenario [of s'] same assms(3) have "flowValue (fire p' (nextTimer s) (fire p i s')) = ENTERED"
      by simp
    with s' same show ?thesis by simp
  qed
  from scenario [of s] assms(3) ex upd show ?thesis
    by (simp add: s2_def)
qed

theorem exit_keeps_pending_enter_witness:
  "flowValue delayedNode = EXITED \<and> scheduleTimeout delayedNode = Some 0
   \<and> timers delayedNode 0 = Some (Number 500, EnterCallback)
   \<and> isActivated (rootProps\<lparr>activate := Some False\<rparr>) = Inr False
   \<and> exit delayedNode = delayedNode
   \<and> flowValue (fire rootProps 0 (exit delayedNode)) = ENTERING
   \<and> timers (fire rootProps 0 (exit delayedNode)) 1 = Some (Number 200, SetFlowValueCallback ENTERED)
   \<and> flowValue (fire rootProps 1 (fire rootProps 0 (exit delayedNode))) = ENTERED
   \<and> componentDidUpdate (rootProps\<lparr>activate := Some False\<rparr>) delayedNode
        = Inr (delayedNode\<lparr>activated := False, effects := [OnActivate False]\<rparr>)
   \<and> flowValue (fire rootProps 1 (fire rootProps 0
        (delayedNode\<lparr>activated := False, effects := [OnActivate False]\<rparr>))) = ENTERED"
proof -
  have a: "flowValue delayedNode = EXITED" "scheduleTimeout delayedNode = Some 0"
    "timers delayedNode 0 = Some (Number 500, EnterCallback)" "nextTimer delayedNode = 1"
    by (simp_all add: delayedNode_def)
  have q: "isActivated (rootProps\<lparr>activate := Some False\<rparr>) = Inr False"
    by (simp add: isActivated_def isRoot_def rootProps_def)
  have d: "readField (getDuration rootProps delayedNode) ''enter'' = Number 200"
    by (simp add: readField_def getDuration_def defaultDuration_def rootProps_def plainContext_def
        delayedNode_def numberToObject_def spread_def)
  have u: "componentDidUpdate (rootProps\<lparr>activate := Some False\<rparr>) delayedNode
        = Inr (delayedNode\<lparr>activated := False, effects := [OnActivate False]\<rparr>)"
    by (simp add: componentDidUpdate_def isActivated_def isRoot_def isAnimate_def rootProps_def
        plainContext_def delayedNode_def exit_def)
  from exit_keeps_pending_enter [OF a(1,2,3), where p = rootProps and p' = rootProps
      and q = "rootProps\<lparr>activate := Some False\<rparr>"] a q d u
  show ?thesis by auto
qed

subsection \<open>Later moments of a node\<close>

lemma followsI:
  assumes "effects s' = effects s @ new"
    and "flowValue s' = flowAfter (flowValue s) new"
    and "flowHasEntered s' = (flowHasEntered s \<or> SetState ENTERED \<in> set new)"
    and "flowHasExited s' = (flowHasExited s \<or> SetState EXITED \<in> set new)"
  shows "follows s s'"
  using assms by (simp add: follows_def emitted_def)

lemma follows_effects: "follows s s' \<Longrightarrow> effects s' = effects s @ emitted s s'"
  unfolding follows_def emitted_def
  by (metis append_take_drop_id)

lemma follows_refl: "follows s s"
  by (rule followsI [where new = "[]"]) (simp_all add: flowAfter_def)

lemma followsD:
  assumes "follows s s'"
  shows "flowValue s' = flowAfter (flowValue s) (emitted s s')"
    and "flowHasEntered s' = (flowHasEntered s \<or> SetState ENTERED \<in> set (emitted s s'))"
    and "flowHasExited s' = (flowHasExited s \<or> SetState EXITED \<in> set (emitted s s'))"
  using assms unfolding follows_def by blast+

lemma flowAfter_append: "flowAfter fv (xs @ ys) = flowAfter (flowAfter fv xs) ys"
  by (simp add: flowAfter_def)

lemma follows_trans:
  assumes a: "follows s s'" and b: "follows s' s''"
  shows "follows s s''"
proof (rule followsI [where new = "emitted s s' @ emitted s' s''"])
  show "effects s'' = effects s @ emitted s s' @ emitted s' s''"
    using follows_effects [OF a] follows_effects [OF b] by simp
  show "flowValue s'' = flowAfter (flowValue s) (emitted s s' @ emitted s' s'')"
    unfolding flowAfter_append followsD(1) [OF a, symmetric] by (rule followsD(1) [OF b])
  show "flowHasEntered s'' =
          (flowHasEntered s \<or> SetState ENTERED \<in> set (emitted s s' @ emitted s' s''))"
    unfolding followsD(2) [OF b] followsD(2) [OF a] by auto
  show "flowHasExited s'' =
          (flowHasExited s \<or> SetState EXITED \<in> set (emitted s s' @ emitted s' s''))"
    unfolding followsD(3) [OF b] followsD(3) [OF a] by auto
qed

lemma follows_schedule: "follows s (schedule t cb s)"
  by (rule followsI [where new = "[ClearTimeout (scheduleTimeout s), SetTimeout (nextTimer s) t cb]"])
     (simp_all add: flowAfter_def)

lemma follows_unschedule: "follows s (unschedule s)"
  by (rule followsI [where new = "[ClearTimeout (scheduleTimeout s)]"])
     (simp_all add: flowAfter_def unschedule_def)

lemma follows_setFlowValue: "follows s (setFlowValue fv s)"
  by (rule followsI [where new = "[SetState fv]"]) (auto simp: flowAfter_def)

lemma follows_enter: "follows s (enter p s)"
  by (simp add: enter_def Let_def follows_refl follows_schedule)

lemma follows_exit: "follows s (exit s)"
  by (simp add: exit_def Let_def follows_refl follows_schedule)

lemma follows_runCallback: "follows s (runCallback p cb s)"
proof (cases cb)
  case EnterCallback
  then show ?thesis
    by (simp add: runCallback_def follows_trans [OF follows_setFlowValue follows_schedule])
next
  case ExitCallback
  then show ?thesis
    by (simp add: runCallback_def follows_trans [OF follows_setFlowValue follows_schedule])
next
  case (SetFlowValueCallback fv)
  then show ?thesis by (simp add: runCallback_def follows_setFlowValue)
qed

lemma follows_timers: "follows (s\<lparr>timers := t\<rparr>) s' \<Longrightarrow> follows s s'"
  by (simp add: follows_def emitted_def)

lemma follows_fire: "follows s (fire p i s)"
proof (cases "timers s i")
  case None
  then show ?thesis by (simp add: fire_def follows_refl)
next
  case (Some tc)
  then obtain t cb where "timers s i = Some (t, cb)" by (cases tc) simp
  then show ?thesis
    by (simp add: fire_pending follows_timers [OF follows_runCallback])
qed

lemma follows_updateDuration: "follows s (updateDuration d s)"
  by (rule followsI [where new = "[]"]) (simp_all add: flowAfter_def updateDuration_def)

lemma follows_componentDidMount:
  assumes "componentDidMount p s = Inr s'"
  shows "follows s s'"
proof (cases "isActivated p")
  case (Inl e)
  with assms show ?thesis by (simp add: componentDidMount_def)
next
  case (Inr a)
  with assms have "s' = (if isAnimate p \<and> a then enter p s else s)"
    by (simp add: componentDidMount_def)
  then show ?thesis by (simp add: follows_enter follows_refl)
qed

lemma follows_recorded:
  "follows s (s\<lparr>activated := a, effects := effects s @ [OnActivate a]\<rparr>)"
  "follows s (s\<lparr>activated := a\<rparr>)"
  by (rule followsI [where new = "[OnActivate a]"], simp_all add: flowAfter_def)
     (rule followsI [where new = "[]"], simp_all add: flowAfter_def)

lemma componentDidUpdate_Inl: "isActivated p = Inl e \<Longrightarrow> componentDidUpdate p s = Inl e"
  by (simp add: componentDidUpdate_def)

lemma componentDidUpdate_same:
  "isActivated p = Inr a \<Longrightarrow> \<not> (isAnimate p \<and> a \<noteq> activated s) \<Longrightarrow>
   componentDidUpdate p s = Inr s"
  by (cases a; cases "activated s"; simp add: componentDidUpdate_def)

lemma componentDidUpdate_changed:
  "isActivated p = Inr a \<Longrightarrow> isAnimate p \<Longrightarrow> a \<noteq> activated s \<Longrightarrow>
   componentDidUpdate p s =
     Inr (if a then enter p (recordActivation p a s) else exit (recordActivation p a s))"
  by (cases a; cases "activated s"; simp add: componentDidUpdate_def recordActivation_def Let_def)

lemma follows_recordActivation: "follows s (recordActivation p a s)"
  by (simp add: recordActivation_def follows_recorded)

lemma follows_componentDidUpdate:
  assumes "componentDidUpdate p s = Inr s'"
  shows "follows s s'"
proof (cases "isActivated p")
  case (Inl e)
  with assms show ?thesis by (simp add: componentDidUpdate_Inl)
next
  case (Inr a)
  show ?thesis
  proof (cases "isAnimate p \<and> a \<noteq> activated s")
    case False
    with assms Inr show ?thesis by (simp add: componentDidUpdate_same follows_refl)
  next
    case True
    with assms Inr have s': "s' = (if a then enter p (recordActivation p a s)
                                 else exit (recordActivation p a s))"
      by (simp add: componentDidUpdate_changed)
    have "follows (recordActivation p a s) s'"
      by (simp add: s' follows_enter follows_exit)
    with follows_recordActivation show ?thesis by (rule follows_trans)
  qed
qed

lemma follows_step:
  assumes "step e (p, s) = Inr (p', s')"
  shows "follows s s'"
proof (cases e)
  case Mount
  with assms show ?thesis by (auto split: sum.splits intro: follows_componentDidMount)
next
  case (Update q)
  with assms show ?thesis by (auto split: sum.splits intro: follows_componentDidUpdate)
next
  case (Fire i)
  with assms show ?thesis by (auto simp: follows_fire)
next
  case (UpdateDuration d)
  with assms show ?thesis by (auto simp: follows_updateDuration)
next
  case Enter
  with assms show ?thesis by (auto simp: follows_enter)
next
  case Exit
  with assms show ?thesis by (auto simp: follows_exit)
next
  case Unmount
  with assms show ?thesis by (auto simp: componentWillUnmount_def follows_unschedule)
qed

lemma follows_run: "run es (p, s) = Inr (p', s') \<Longrightarrow> follows s s'"
proof (induction es arbitrary: p s)
  case Nil
  then show ?case by (simp add: follows_refl)
next
  case (Cons e es)
  then obtain p1 s1 where st: "step e (p, s) = Inr (p1, s1)" and r: "run es (p1, s1) = Inr (p', s')"
    by (auto split: sum.splits)
  from follows_step [OF st] Cons.IH [OF r] show ?case by (rule follows_trans)
qed

subsection \<open>Runs that return\<close>

lemma isActivated_safe: "(\<exists>a. isActivated q = Inr a) = safeProps q"
  by (auto simp: isActivated_def isRoot_def safeProps_def Let_def split: option.splits)

lemma onActivateCalls_append [simp]:
  "onActivateCalls (xs @ ys) = onActivateCalls xs @ onActivateCalls ys"
  by (simp add: onActivateCalls_def)

lemma onActivateCalls_simps [simp]:
  "onActivateCalls [] = []"
  "onActivateCalls (OnActivate b # es) = b # onActivateCalls es"
  "onActivateCalls (ClearTimeout i # es) = onActivateCalls es"
  "onActivateCalls (SetTimeout j t cb # es) = onActivateCalls es"
  "onActivateCalls (SetState fv # es) = onActivateCalls es"
  by (simp_all add: onActivateCalls_def)

lemma unschedule_fields [simp]:
  "customDuration (unschedule s) = customDuration s"
  "activated (unschedule s) = activated s"
  "onActivateCalls (effects (unschedule s)) = onActivateCalls (effects s)"
  by (simp_all add: unschedule_def)

lemma enter_fields [simp]:
  "customDuration (enter p s) = customDuration s"
  "activated (enter p s) = activated s"
  "onActivateCalls (effects (enter p s)) = onActivateCalls (effects s)"
  by (simp_all add: enter_def Let_def)

lemma exit_fields [simp]:
  "customDuration (exit s) = customDuration s"
  "activated (exit s) = activated s"
  "onActivateCalls (effects (exit s)) = onActivateCalls (effects s)"
  by (simp_all add: exit_def Let_def)

lemma runCallback_fields [simp]:
  "customDuration (runCallback p cb s) = customDuration s"
  "activated (runCallback p cb s) = activated s"
  "onActivateCalls (effects (runCallback p cb s)) = onActivateCalls (effects s)"
  by (cases cb; simp add: runCallback_def)+

lemma fire_fields [simp]:
  "customDuration (fire p i s) = customDuration s"
  "activated (fire p i s) = activated s"
  "onActivateCalls (effects (fire p i s)) = onActivateCalls (effects s)"
  by (simp_all add: fire_def split: option.splits)

lemma updateDuration_fields [simp]:
  "activated (updateDuration d s) = activated s"
  "effects (updateDuration d s) = effects s"
  by (simp_all add: updateDuration_def)

lemma recordActivation_fields [simp]:
  "customDuration (recordActivation p a s) = customDuration s"
  "activated (recordActivation p a s) = a"
  "onActivateCalls (effects (recordActivation p a s)) =
     onActivateCalls (effects s) @ (if onActivate p then [a] else [])"
  by (simp_all add: recordActivation_def)

lemma componentDidMount_Inr:
  "isActivated p = Inr a \<Longrightarrow>
   componentDidMount p s = Inr (if isAnimate p \<and> a then enter p s else s)"
  by (simp add: componentDidMount_def)

lemma componentDidMount_Inl: "isActivated p = Inl e \<Longrightarrow> componentDidMount p s = Inl e"
  by (simp add: componentDidMount_def)

lemma step_returns: "(\<exists>r. step e (p, s) = Inr r) = safeRun p [e]"
proof (cases e)
  case Mount
  show ?thesis
  proof (cases "isActivated p")
    case (Inl x)
    with Mount isActivated_safe [of p] show ?thesis by (simp add: componentDidMount_Inl)
  next
    case (Inr a)
    with Mount isActivated_safe [of p] show ?thesis by (simp add: componentDidMount_Inr)
  qed
next
  case (Update q)
  show ?thesis
  proof (cases "isActivated q")
    case (Inl x)
    with Update isActivated_safe [of q] show ?thesis by (simp add: componentDidUpdate_Inl)
  next
    case (Inr a)
    with Update isActivated_safe [of q] show ?thesis
      by (cases "isAnimate q \<and> a \<noteq> activated s")
         (simp_all add: componentDidUpdate_same componentDidUpdate_changed)
  qed
qed simp_all

lemma step_props:
  "step e (p, s) = Inr (p', s') \<Longrightarrow> p' = (case e of Update q \<Rightarrow> q | _ \<Rightarrow> p)"
  by (cases e) (auto split: sum.splits)

lemma run_returns: "(\<exists>r. run es (p, s) = Inr r) = safeRun p es"
proof (induction es arbitrary: p s)
  case Nil
  show ?case by simp
next
  case (Cons e es)
  show ?case
  proof (cases "step e (p, s)")
    case (Inl x)
    then have "\<not> safeRun p [e]" using step_returns [of e p s] by simp
    then have "\<not> safeRun p (e # es)" by (cases e) simp_all
    with Inl show ?thesis by simp
  next
    case (Inr r)
    obtain p1 s1 where r: "r = (p1, s1)" by (cases r)
    have p1: "p1 = (case e of Update q \<Rightarrow> q | _ \<Rightarrow> p)"
      using Inr r step_props by blast
    have "safeRun p [e]" using step_returns [of e p s] Inr by simp
    then have "safeRun p (e # es) = safeRun p1 es"
      using p1 by (cases e) simp_all
    with Inr r Cons.IH [of p1 s1] show ?thesis by simp
  qed
qed

lemma run_append:
  "run (es1 @ es2) c = (case run es1 c of Inl x \<Rightarrow> Inl x | Inr c' \<Rightarrow> run es2 c')"
  by (induction es1 arbitrary: c) (auto split: sum.splits)

lemma wf_updateDuration [simp]: "wf_node (updateDuration d s) = wf_node s"
  by (simp add: updateDuration_def wf_node_def)

lemma wf_recordActivation [simp]: "wf_node (recordActivation p a s) = wf_node s"
  by (simp add: recordActivation_def wf_node_def)

lemma wf_unschedule: "wf_node s \<Longrightarrow> wf_node (unschedule s)"
  by (auto simp: wf_node_def unschedule_def split: option.splits if_splits)

lemma wf_step: "wf_node s \<Longrightarrow> step e (p, s) = Inr (p', s') \<Longrightarrow> wf_node s'"
proof (cases e)
  case Mount
  assume "wf_node s" "step e (p, s) = Inr (p', s')"
  with Mount show ?thesis
    by (cases "isActivated p") (auto simp: componentDidMount_Inl componentDidMount_Inr wf_enter)
next
  case (Update q)
  assume a: "wf_node s" "step e (p, s) = Inr (p', s')"
  have r: "wf_node (recordActivation q a s)" for a
    using a(1) by simp
  show ?thesis
  proof (cases "isActivated q")
    case (Inl x)
    with a Update show ?thesis by (simp add: componentDidUpdate_Inl)
  next
    case (Inr b)
    with a Update r [of b] show ?thesis
      by (cases "isAnimate q \<and> b \<noteq> activated s")
         (auto simp: componentDidUpdate_same componentDidUpdate_changed wf_enter wf_exit)
  qed
next
  case (UpdateDuration d)
  assume "wf_node s" "step e (p, s) = Inr (p', s')"
  with UpdateDuration show ?thesis by auto
next
  case Unmount
  assume "wf_node s" "step e (p, s) = Inr (p', s')"
  with Unmount show ?thesis
    by (auto simp: componentWillUnmount_def wf_unschedule)
qed (auto simp: wf_fire wf_enter wf_exit)

lemma wf_run: "wf_node s \<Longrightarrow> run es (p, s) = Inr (p', s') \<Longrightarrow> wf_node s'"
proof (induction es arbitrary: p s)
  case Nil
  then show ?case by simp
next
  case (Cons e es)
  then obtain p1 s1 where st: "step e (p, s) = Inr (p1, s1)" and r: "run es (p1, s1) = Inr (p', s')"
    by (auto split: sum.splits)
  from wf_step [OF Cons.prems(1) st] r show ?case by (rule Cons.IH)
qed

text \<open>
  Every node a run reaches from its construction respects the single-slot discipline.
\<close>

lemma wf_reachable: "run es (p, constructor p) = Inr (p', s') \<Longrightarrow> wf_node s'"
  using wf_constructor by (rule wf_run)

subsection \<open>The lifecycle markers\<close>

text \<open>
  The constructor assigns the initial flow state directly: no transition happens and both
  markers start unset, whichever state the node starts in.
\<close>

lemma constructor_markers:
  "\<not> flowHasEntered (constructor p) \<and> \<not> flowHasExited (constructor p)
   \<and> effects (constructor p) = []"
  by (simp add: constructor_def split: prod.splits)

text \<open>
  C7. Over any run of a node, from any moment \<open>s\<close> of its life to any later moment \<open>s'\<close>:
  the flow state changes only by transitions (it is the state of the last one), the marker
  \<^verbatim>\<open>flowHasEntered\<close> is set at \<open>s'\<close> exactly if it was set at \<open>s\<close> or a transition to
  \<open>ENTERED\<close> happened in between, likewise \<^verbatim>\<open>flowHasExited\<close> and \<open>EXITED\<close>; so a marker
  is set by the first such transition and, once set, stays set. \<^verbatim>\<open>hasEntered()\<close> and
  \<^verbatim>\<open>hasExited()\<close> read the markers.
\<close>

theorem lifecycle_markers_sticky:
  assumes "run es (p, s) = Inr (p', s')"
  shows "flowHasEntered s' = (flowHasEntered s \<or> SetState ENTERED \<in> set (emitted s s'))
     \<and> flowHasExited s' = (flowHasExited s \<or> SetState EXITED \<in> set (emitted s s'))
     \<and> flowValue s' = flowAfter (flowValue s) (emitted s s')
     \<and> (flowHasEntered s \<longrightarrow> flowHasEntered s')
     \<and> (flowHasExited s \<longrightarrow> flowHasExited s')
     \<and> hasEntered s' = flowHasEntered s' \<and> hasExited s' = flowHasExited s'"
proof -
  have f: "follows s s'" using assms by (rule follows_run)
  show ?thesis
    using followsD [OF f] by (simp add: hasEntered_def hasExited_def)
qed

theorem lifecycle_markers_sticky_witness:
  "case run [Mount, Fire 0, Update rootProps, Fire 1, Update (rootProps\<lparr>activate := Some False\<rparr>),
             Fire 2, Fire 3, Update rootProps, Fire 4]
          (rootProps, constructor rootProps) of
     Inl e \<Rightarrow> False
   | Inr r \<Rightarrow>
       flowValue (snd r) = ENTERING \<and> flowHasEntered (snd r) \<and> flowHasExited (snd r)
       \<and> SetState ENTERED \<in> set (emitted (constructor rootProps) (snd r))
       \<and> SetState EXITED \<in> set (emitted (constructor rootProps) (snd r))"
proof -
  define es where "es = [Mount, Fire 0, Update rootProps, Fire 1,
      Update (rootProps\<lparr>activate := Some False\<rparr>), Fire 2, Fire 3, Update rootProps, Fire 4]"
  have ev: "map_sum id (\<lambda>r. (flowValue (snd r), flowHasEntered (snd r), flowHasExited (snd r)))
              (run es (rootProps, constructor rootProps)) = Inr (ENTERING, True, True)"
    unfolding es_def by (simp add: eval_defs)
  then obtain p' s' where r: "run es (rootProps, constructor rootProps) = Inr (p', s')"
    by (cases "run es (rootProps, constructor rootProps)") auto
  have s': "flowValue s' = ENTERING" "flowHasEntered s'" "flowHasExited s'"
    using ev r by simp_all
  have c: "\<not> flowHasEntered (constructor rootProps)" "\<not> flowHasExited (constructor rootProps)"
    by (simp_all add: constructor_def split: prod.splits)
  from lifecycle_markers_sticky [OF r] s' c
  have "SetState ENTERED \<in> set (emitted (constructor rootProps) s')"
    "SetState EXITED \<in> set (emitted (constructor rootProps) s')"
    by simp_all
  with s' r show ?thesis by (simp add: es_def)
qed

subsection \<open>The override over a run\<close>

lemma customDuration_step:
  assumes "step e (p, s) = Inr (p', s')" and "\<not> isUpdateDuration e"
  shows "customDuration s' = customDuration s"
proof (cases e)
  case Mount
  with assms show ?thesis
    by (cases "isActivated p") (auto simp: componentDidMount_Inl componentDidMount_Inr)
next
  case (Update q)
  show ?thesis
  proof (cases "isActivated q")
    case (Inl x)
    with assms Update show ?thesis by (simp add: componentDidUpdate_Inl)
  next
    case (Inr a)
    with assms Update show ?thesis
      by (cases "isAnimate q \<and> a \<noteq> activated s")
         (auto simp: componentDidUpdate_same componentDidUpdate_changed)
  qed
next
  case (UpdateDuration d)
  with assms show ?thesis by (simp add: isUpdateDuration_def)
next
  case Unmount
  with assms show ?thesis by (auto simp: componentWillUnmount_def)
qed (use assms in auto)

lemma customDuration_run:
  "run es (p, s) = Inr (p', s') \<Longrightarrow> list_all (\<lambda>e. \<not> isUpdateDuration e) es \<Longrightarrow>
   customDuration s' = customDuration s"
proof (induction es arbitrary: p s)
  case Nil
  then show ?case by simp
next
  case (Cons e es)
  then obtain p1 s1 where st: "step e (p, s) = Inr (p1, s1)" and r: "run es (p1, s1) = Inr (p', s')"
    by (auto split: sum.splits)
  from Cons.prems(2) have e: "\<not> isUpdateDuration e" and es: "list_all (\<lambda>e. \<not> isUpdateDuration e) es"
    by simp_all
  from Cons.IH [OF r es] customDuration_step [OF st e] show ?case by simp
qed

text \<open>
  C8. If a run contains an override call and no later one, then after the run the stored
  override is the argument of that call, whatever updates (with whatever props and ambient
  configuration), timeouts and method calls came after it, and the resolver applies it: for
  any props \<open>q\<close> the resolved duration is the specification's overlay with that override on
  top; for a field that no input holds as \<^verbatim>\<open>undefined\<close> that is the specification's
  overlay.
\<close>

theorem override_persists:
  assumes "run (es1 @ UpdateDuration d # es2) (p, s) = Inr (p', s')"
    and "list_all (\<lambda>e. \<not> isUpdateDuration e) es2"
  shows "customDuration s' = numberToObject d
     \<and> getDuration q s' = own_resolve (context_duration (animationContext q)) (duration q) d
     \<and> (\<not> givenUndefined (context_duration (animationContext q)) (duration q) d k \<longrightarrow>
          getDuration q s' k = spec_resolve (context_duration (animationContext q)) (duration q) d k)"
proof -
  from assms(1) obtain p1 s1 where r1: "run es1 (p, s) = Inr (p1, s1)"
    and r2: "run (UpdateDuration d # es2) (p1, s1) = Inr (p', s')"
    by (auto simp: run_append split: sum.splits)
  from r2 have "run es2 (p1, updateDuration d s1) = Inr (p', s')" by simp
  from customDuration_run [OF this assms(2)] have c: "customDuration s' = numberToObject d"
    by simp
  with getDuration_resolve [OF c] show ?thesis by (simp add: own_resolve_spec)
qed

theorem override_persists_witness:
  "list_all (\<lambda>e. \<not> isUpdateDuration e)
     [Update (rootProps\<lparr>duration := Some (DurationNumber 100)\<rparr>), Fire 0,
      Update (rootProps\<lparr>animationContext :=
                \<lparr>context_animate = None, context_duration = Some [''exit'' \<mapsto> Number 7]\<rparr>\<rparr>)]
   \<and> \<not> givenUndefined
        (context_duration (animationContext (rootProps\<lparr>duration := Some (DurationNumber 100)\<rparr>)))
        (duration (rootProps\<lparr>duration := Some (DurationNumber 100)\<rparr>))
        (Some (DurationNumber 300)) ''delay''
   \<and> (case run ([Mount, UpdateDuration (Some (DurationObject [''delay'' \<mapsto> Number 50]))]
                 @ UpdateDuration (Some (DurationNumber 300))
                 # [Update (rootProps\<lparr>duration := Some (DurationNumber 100)\<rparr>), Fire 0,
                    Update (rootProps\<lparr>animationContext :=
                      \<lparr>context_animate = None, context_duration = Some [''exit'' \<mapsto> Number 7]\<rparr>\<rparr>)])
               (rootProps, constructor rootProps) of
         Inl e \<Rightarrow> False
       | Inr r \<Rightarrow>
           customDuration (snd r) = Some [''enter'' \<mapsto> Number 300, ''exit'' \<mapsto> Number 300]
           \<and> getDuration (rootProps\<lparr>duration := Some (DurationNumber 100)\<rparr>) (snd r) ''enter''
               = Some (Number 300)
           \<and> getDuration (rootProps\<lparr>duration := Some (DurationNumber 100)\<rparr>) (snd r) ''delay''
               = Some (Number 0))"
proof -
  define es1 :: "int event list"
    where "es1 = [Mount, UpdateDuration (Some (DurationObject [''delay'' \<mapsto> Number 50]))]"
  define es2 where "es2 = [Update (rootProps\<lparr>duration := Some (DurationNumber 100)\<rparr>), Fire 0,
      Update (rootProps\<lparr>animationContext :=
                \<lparr>context_animate = None, context_duration = Some [''exit'' \<mapsto> Number 7]\<rparr>\<rparr>)]"
  define d :: "int durationValue option" where "d = Some (DurationNumber 300)"
  define q where "q = rootProps\<lparr>duration := Some (DurationNumber 100)\<rparr>"
  have no: "list_all (\<lambda>e. \<not> isUpdateDuration e) es2"
    by (simp add: es2_def isUpdateDuration_def)
  have g: "\<not> givenUndefined (context_duration (animationContext q)) (duration q) d ''delay''"
    by (simp add: givenUndefined_def q_def d_def rootProps_def plainContext_def spread_def
        spec_layer_def)
  have sr: "spec_resolve (context_duration (animationContext q)) (duration q) d ''delay''
              = Some (Number 0)"
    by (simp add: spec_resolve_def spec_layers_def spec_layer_def spec_default_def q_def d_def
        rootProps_def plainContext_def)
  have ow: "own_resolve (context_duration (animationContext q)) (duration q) d ''enter''
              = Some (Number 300)"
    by (simp add: own_resolve_def spec_layers_def spec_layer_def d_def)
  have "safeRun rootProps (es1 @ UpdateDuration d # es2)"
    by (simp add: es1_def es2_def safeProps_def rootProps_def)
  then obtain r where r: "run (es1 @ UpdateDuration d # es2) (rootProps, constructor rootProps) = Inr r"
    using run_returns [of "es1 @ UpdateDuration d # es2" rootProps "constructor rootProps"] by blast
  obtain p' s' where ps: "r = (p', s')" by (cases r)
  note t = override_persists [OF r [unfolded ps] no, where q = q and k = "''delay''"]
  from t have c: "customDuration s' = Some [''enter'' \<mapsto> Number 300, ''exit'' \<mapsto> Number 300]"
    by (simp add: d_def numberToObject_def)
  from t have "getDuration q s' = own_resolve (context_duration (animationContext q)) (duration q) d"
    by blast
  then have e: "getDuration q s' ''enter'' = Some (Number 300)"
    by (simp only: ow)
  from t g sr have dl: "getDuration q s' ''delay'' = Some (Number 0)"
    by metis
  from r ps no g c e dl show ?thesis by (simp add: es1_def es2_def d_def q_def)
qed

subsection \<open>The activation callback\<close>

lemma observed_step:
  assumes "step e (p, s) = Inr (p', s')"
  shows "onActivateCalls (effects s') @ spec_calls (activated s') es
           = onActivateCalls (effects s) @ spec_calls (activated s) (e # es)
         \<and> lastObserved (activated s') es = lastObserved (activated s) (e # es)"
proof (cases e)
  case Mount
  show ?thesis
  proof (cases "isActivated p")
    case (Inl x)
    with assms Mount show ?thesis by (simp add: componentDidMount_Inl)
  next
    case (Inr a)
    with assms Mount have "s' = enter p s \<or> s' = s"
      by (cases "isAnimate p \<and> a") (auto simp: componentDidMount_Inr)
    then have "activated s' = activated s"
      "onActivateCalls (effects s') = onActivateCalls (effects s)"
      by auto
    with Mount show ?thesis by simp
  qed
next
  case (Update q)
  show ?thesis
  proof (cases "isActivated q")
    case (Inl x)
    with assms Update show ?thesis by (simp add: componentDidUpdate_Inl)
  next
    case (Inr a)
    show ?thesis
    proof (cases "isAnimate q \<and> a \<noteq> activated s")
      case False
      with assms Update Inr have s': "s' = s" by (simp add: componentDidUpdate_same)
      show ?thesis
      proof (cases "isAnimate q")
        case True
        with False have "a = activated s" by simp
        with True Update Inr s' show ?thesis by simp
      next
        case False
        with Update Inr s' show ?thesis by simp
      qed
    next
      case True
      with assms Update Inr
      have "s' = (if a then enter q (recordActivation q a s) else exit (recordActivation q a s))"
        by (simp add: componentDidUpdate_changed)
      then have "activated s' = a"
        "onActivateCalls (effects s') = onActivateCalls (effects s) @ (if onActivate q then [a] else [])"
        by simp_all
      with True Update Inr show ?thesis by simp
    qed
  qed
next
  case (Fire i)
  with assms show ?thesis by auto
next
  case (UpdateDuration d)
  with assms show ?thesis by auto
next
  case Enter
  with assms show ?thesis by auto
next
  case Exit
  with assms show ?thesis by auto
next
  case Unmount
  with assms show ?thesis by (auto simp: componentWillUnmount_def)
qed

lemma observed_run:
  "run es (p, s) = Inr (p', s') \<Longrightarrow>
   onActivateCalls (effects s') = onActivateCalls (effects s) @ spec_calls (activated s) es
   \<and> activated s' = lastObserved (activated s) es"
proof (induction es arbitrary: p s)
  case Nil
  then show ?case by simp
next
  case (Cons e es)
  then obtain p1 s1 where st: "step e (p, s) = Inr (p1, s1)" and r: "run es (p1, s1) = Inr (p', s')"
    by (auto split: sum.splits)
  from Cons.IH [OF r] observed_step [OF st, of es] show ?case by simp
qed

lemma timerCalls_enter: "list_all isTimerCall (emitted s (enter p s))"
proof (cases "flowValue s = ENTERING \<or> flowValue s = ENTERED")
  case True
  then show ?thesis by (simp add: enter_def emitted_def)
next
  case False
  then have "enter p s =
      schedule (if flowValue s = EXITED then readField (getDuration p s) ''delay'' else Number 0)
        EnterCallback s"
    by (simp add: enter_def Let_def)
  then show ?thesis by (simp add: emitted_def isTimerCall_def)
qed

lemma timerCalls_exit: "list_all isTimerCall (emitted s (exit s))"
proof (cases "flowValue s = EXITING \<or> flowValue s = EXITED")
  case True
  then show ?thesis by (simp add: exit_def emitted_def)
next
  case False
  then have "exit s = schedule (Number 0) ExitCallback s"
    by (simp add: exit_def Let_def)
  then show ?thesis by (simp add: emitted_def isTimerCall_def)
qed

lemma emitted_trans:
  "follows s r \<Longrightarrow> follows r u \<Longrightarrow> emitted s u = emitted s r @ emitted r u"
proof -
  assume "follows s r" "follows r u"
  then have "effects u = effects s @ (emitted s r @ emitted r u)"
    using follows_effects [of s r] follows_effects [of r u] by simp
  then show ?thesis by (rule emitted_append)
qed

lemma emitted_recordActivation:
  "emitted s (recordActivation q a s) = (if onActivate q then [OnActivate a] else [])"
  by (rule emitted_append) (simp add: recordActivation_def)

text \<open>An update under enabled animation leaves the activation it observed recorded.\<close>

lemma observed_recorded:
  assumes "componentDidUpdate q s = Inr s1" and "isAnimate q" and "isActivated q = Inr a"
  shows "activated s1 = a"
proof (cases "a = activated s")
  case True
  with assms show ?thesis by (simp add: componentDidUpdate_same)
next
  case False
  with assms
  have "s1 = (if a then enter q (recordActivation q a s) else exit (recordActivation q a s))"
    by (simp add: componentDidUpdate_changed)
  then show ?thesis by simp
qed

lemma call_before_transition:
  assumes "isActivated q = Inr a" and "isAnimate q" and "a \<noteq> activated s"
  shows "case componentDidUpdate q s of
           Inl e \<Rightarrow> False
         | Inr u \<Rightarrow>
             u = (if a then enter q (recordActivation q a s) else exit (recordActivation q a s))
             \<and> emitted s u = (if onActivate q then [OnActivate a] else [])
                               @ emitted (recordActivation q a s) u
             \<and> list_all isTimerCall (emitted (recordActivation q a s) u)"
proof -
  define r where "r = recordActivation q a s"
  define u where "u = (if a then enter q r else exit r)"
  have cu: "componentDidUpdate q s = Inr u"
    using assms by (simp add: componentDidUpdate_changed u_def r_def)
  have ru: "follows r u" by (simp add: u_def follows_enter follows_exit)
  have sr: "follows s r" by (simp add: r_def follows_recordActivation)
  have e: "emitted s u = (if onActivate q then [OnActivate a] else []) @ emitted r u"
    using emitted_trans [OF sr ru] by (simp add: r_def emitted_recordActivation)
  have t: "list_all isTimerCall (emitted r u)"
    by (simp add: u_def timerCalls_enter timerCalls_exit)
  from cu e t show ?thesis by (simp add: u_def r_def)
qed

lemma mount_calls_nothing:
  assumes "componentDidMount q x = Inr m"
  shows "onActivateCalls (emitted x m) = []"
proof -
  have "follows x m" using assms by (rule follows_componentDidMount)
  then have "effects m = effects x @ emitted x m" by (rule follows_effects)
  then have "onActivateCalls (effects m) = onActivateCalls (effects x) @ onActivateCalls (emitted x m)"
    by (metis onActivateCalls_append)
  moreover have "onActivateCalls (effects m) = onActivateCalls (effects x)"
  proof (cases "isActivated q")
    case (Inl e)
    with assms show ?thesis by (simp add: componentDidMount_Inl)
  next
    case (Inr a)
    with assms show ?thesis by (auto simp: componentDidMount_Inr)
  qed
  ultimately show ?thesis by simp
qed

text \<open>
  C4, as stated, fails. A root node with animation disabled and an \<^verbatim>\<open>onActivate\<close> callback
  is activated at mount; the update that follows deactivates it; the activation value has
  changed and \<^verbatim>\<open>onActivate\<close> has not been called.
\<close>

theorem onActivate_animation_disabled_counterexample:
  "\<not> isAnimate (rootProps\<lparr>animate := Some False\<rparr>)
   \<and> isActivated (rootProps\<lparr>animate := Some False\<rparr>) = Inr True
   \<and> isActivated (rootProps\<lparr>animate := Some False, activate := Some False\<rparr>) = Inr False
   \<and> onActivate (rootProps\<lparr>animate := Some False, activate := Some False\<rparr>)
   \<and> map_sum id (\<lambda>r. onActivateCalls (effects (snd r)))
        (run [Mount, Update (rootProps\<lparr>animate := Some False, activate := Some False\<rparr>)]
           (rootProps\<lparr>animate := Some False\<rparr>, constructor (rootProps\<lparr>animate := Some False\<rparr>)))
       = Inr []"
  by (simp add: eval_defs onActivateCalls_def)

text \<open>
  C4, amended: the claim for the updates that run with animation enabled, counted from an
  activation the node has observed. Take an update with animation enabled, observing the
  activation \<open>a0\<close>, and any run after it. The calls of \<^verbatim>\<open>onActivate\<close> in that run are one,
  with the new value, for each update with animation enabled whose activation differs from
  the one observed by the update with animation enabled before it, and no other. At the end
  of the run, an update with animation enabled whose activation differs from the last one
  observed calls \<^verbatim>\<open>onActivate\<close> first: \<^verbatim>\<open>enter()\<close> or \<^verbatim>\<open>exit()\<close> runs on the node as the
  call left it, and all that follows the call in the update's trace are the timer calls of
  that \<^verbatim>\<open>enter()\<close> or \<^verbatim>\<open>exit()\<close>; an update whose activation is the last one observed,
  or whose animation is disabled, leaves the node as it is. For a node that is not activated
  at mount the count starts at mount. Mount itself calls nothing.
\<close>

theorem onActivate_per_observed_change:
  "(componentDidUpdate q0 s = Inr s1 \<and> isAnimate q0 \<and> isActivated q0 = Inr a0
      \<and> run es (q0, s1) = Inr (p', s') \<longrightarrow>
      onActivateCalls (emitted s1 s') = spec_calls a0 es
      \<and> (isActivated q = Inr a \<and> isAnimate q \<and> a \<noteq> lastObserved a0 es \<longrightarrow>
           (case componentDidUpdate q s' of
              Inl e \<Rightarrow> False
            | Inr u \<Rightarrow>
                u = (if a then enter q (recordActivation q a s')
                     else exit (recordActivation q a s'))
                \<and> emitted s' u = (if onActivate q then [OnActivate a] else [])
                                   @ emitted (recordActivation q a s') u
                \<and> list_all isTimerCall (emitted (recordActivation q a s') u)))
      \<and> (isActivated q = Inr a \<and> (\<not> isAnimate q \<or> a = lastObserved a0 es) \<longrightarrow>
           componentDidUpdate q s' = Inr s'))
   \<and> (isActivated p = Inr False \<and> run (Mount # es) (p, constructor p) = Inr (p', s') \<longrightarrow>
        onActivateCalls (effects s') = spec_calls False es)
   \<and> (componentDidMount q x = Inr m \<longrightarrow> onActivateCalls (emitted x m) = [])"
proof -
  have main:
    "onActivateCalls (emitted s1 s') = spec_calls a0 es
      \<and> (isActivated q = Inr a \<and> isAnimate q \<and> a \<noteq> lastObserved a0 es \<longrightarrow>
           (case componentDidUpdate q s' of
              Inl e \<Rightarrow> False
            | Inr u \<Rightarrow>
                u = (if a then enter q (recordActivation q a s')
                     else exit (recordActivation q a s'))
                \<and> emitted s' u = (if onActivate q then [OnActivate a] else [])
                                   @ emitted (recordActivation q a s') u
                \<and> list_all isTimerCall (emitted (recordActivation q a s') u)))
      \<and> (isActivated q = Inr a \<and> (\<not> isAnimate q \<or> a = lastObserved a0 es) \<longrightarrow>
           componentDidUpdate q s' = Inr s')"
    if first: "componentDidUpdate q0 s = Inr s1" "isAnimate q0" "isActivated q0 = Inr a0"
      and rest: "run es (q0, s1) = Inr (p', s')"
  proof -
    have rec1: "activated s1 = a0" using first by (rule observed_recorded)
    from observed_run [OF rest] rec1
    have calls: "onActivateCalls (effects s') = onActivateCalls (effects s1) @ spec_calls a0 es"
      and rec: "activated s' = lastObserved a0 es"
      by simp_all
    have "effects s' = effects s1 @ emitted s1 s'"
      using follows_run [OF rest] by (rule follows_effects)
    then have "onActivateCalls (effects s')
                 = onActivateCalls (effects s1) @ onActivateCalls (emitted s1 s')"
      by (metis onActivateCalls_append)
    with calls have c: "onActivateCalls (emitted s1 s') = spec_calls a0 es" by simp
    have o: "case componentDidUpdate q s' of
              Inl e \<Rightarrow> False
            | Inr u \<Rightarrow>
                u = (if a then enter q (recordActivation q a s')
                     else exit (recordActivation q a s'))
                \<and> emitted s' u = (if onActivate q then [OnActivate a] else [])
                                   @ emitted (recordActivation q a s') u
                \<and> list_all isTimerCall (emitted (recordActivation q a s') u)"
      if "isActivated q = Inr a" "isAnimate q" "a \<noteq> lastObserved a0 es"
      using that rec by (intro call_before_transition) simp_all
    have n: "componentDidUpdate q s' = Inr s'"
      if "isActivated q = Inr a" "\<not> isAnimate q \<or> a = lastObserved a0 es"
      using that rec by (intro componentDidUpdate_same) auto
    from c o n show ?thesis by blast
  qed
  have mounted: "onActivateCalls (effects s') = spec_calls False es"
    if p: "isActivated p = Inr False" and r: "run (Mount # es) (p, constructor p) = Inr (p', s')"
  proof -
    from r have "run es (p, constructor p) = Inr (p', s')"
      by (simp add: componentDidMount_Inr [OF p])
    from observed_run [OF this] show ?thesis
      by (simp add: constructor_def split: prod.splits)
  qed
  from main mounted mount_calls_nothing show ?thesis by blast
qed

theorem onActivate_per_observed_change_witness:
  "componentDidUpdate rootProps enteredNode = Inr enteredNode
   \<and> isAnimate rootProps \<and> isActivated rootProps = Inr True
   \<and> (case run [Update (rootProps\<lparr>activate := Some False\<rparr>), Fire 2,
                 Update (rootProps\<lparr>activate := Some False\<rparr>), Fire 3, Update rootProps]
              (rootProps, enteredNode) of
         Inl e \<Rightarrow> False
       | Inr r \<Rightarrow> onActivateCalls (emitted enteredNode (snd r)) = [False, True])
   \<and> isActivated (rootProps\<lparr>activate := Some False\<rparr>) = Inr False
   \<and> isAnimate (rootProps\<lparr>activate := Some False\<rparr>)
   \<and> componentDidUpdate (rootProps\<lparr>activate := Some False\<rparr>) enteredNode
        = Inr (exit (recordActivation (rootProps\<lparr>activate := Some False\<rparr>) False enteredNode))
   \<and> emitted enteredNode
         (exit (recordActivation (rootProps\<lparr>activate := Some False\<rparr>) False enteredNode))
        = [OnActivate False, ClearTimeout (Some 1), SetTimeout 2 (Number 0) ExitCallback]
   \<and> (case run [Mount, Update rootProps, Update rootProps, Fire 0,
                 Update (rootProps\<lparr>activate := Some False\<rparr>)]
              (rootProps\<lparr>activate := Some False\<rparr>,
               constructor (rootProps\<lparr>activate := Some False\<rparr>)) of
         Inl e \<Rightarrow> False
       | Inr r \<Rightarrow> onActivateCalls (effects (snd r)) = [True, False])
   \<and> (case componentDidMount rootProps (constructor rootProps) of
         Inl e \<Rightarrow> False
       | Inr m \<Rightarrow> onActivateCalls (emitted (constructor rootProps) m) = [])"
proof -
  define off where "off = rootProps\<lparr>activate := Some False\<rparr>"
  define es1 where "es1 = [Update off, Fire 2, Update off, Fire 3, Update rootProps]"
  define es2 where "es2 = [Update rootProps, Update rootProps, Fire 0, Update off]"
  have a: "isActivated rootProps = Inr True" "isActivated off = Inr False"
    "isAnimate rootProps" "isAnimate off" "onActivate rootProps" "onActivate off"
    by (simp_all add: off_def rootProps_def plainContext_def isActivated_def isRoot_def isAnimate_def)
  have n: "activated enteredNode" by (simp add: enteredNode_def)
  have u0: "componentDidUpdate rootProps enteredNode = Inr enteredNode"
    using n by (simp add: componentDidUpdate_same [OF a(1)])
  \<comment> \<open>the run after an update that observed \<open>True\<close>\<close>
  have "safeRun rootProps es1"
    by (simp add: es1_def off_def safeProps_def rootProps_def)
  then obtain r1 where "run es1 (rootProps, enteredNode) = Inr r1"
    using run_returns [of es1 rootProps enteredNode] by blast
  then obtain p1 s1 where r1: "run es1 (rootProps, enteredNode) = Inr (p1, s1)"
    by (cases r1) simp
  have "onActivateCalls (emitted enteredNode s1) = spec_calls True es1"
    using onActivate_per_observed_change [where ?q0.0 = rootProps and s = enteredNode
        and ?s1.0 = enteredNode and ?a0.0 = True and es = es1 and p' = p1 and s' = s1]
      u0 a(1,3) r1
    by blast
  then have c1: "onActivateCalls (emitted enteredNode s1) = [False, True]"
    by (simp add: es1_def a)
  \<comment> \<open>the order of the calls in an update that observes a change\<close>
  have r0: "run [] (rootProps, enteredNode) = Inr (rootProps, enteredNode)" by simp
  have "case componentDidUpdate off enteredNode of
          Inl e \<Rightarrow> False
        | Inr u \<Rightarrow>
            u = (if False then enter off (recordActivation off False enteredNode)
                 else exit (recordActivation off False enteredNode))
            \<and> emitted enteredNode u = (if onActivate off then [OnActivate False] else [])
                                   @ emitted (recordActivation off False enteredNode) u
            \<and> list_all isTimerCall (emitted (recordActivation off False enteredNode) u)"
    using onActivate_per_observed_change [where ?q0.0 = rootProps and s = enteredNode
        and ?s1.0 = enteredNode and ?a0.0 = True and es = "[]" and p' = rootProps
        and s' = enteredNode and q = off and a = False]
      u0 a r0
    by simp
  then have u: "componentDidUpdate off enteredNode
                  = Inr (exit (recordActivation off False enteredNode))"
    by (auto split: sum.splits)
  have e: "emitted enteredNode (exit (recordActivation off False enteredNode))
        = [OnActivate False, ClearTimeout (Some 1), SetTimeout 2 (Number 0) ExitCallback]"
    by (rule emitted_append)
       (simp add: recordActivation_def a exit_def enteredNode_def schedule_def unschedule_def Let_def)
  \<comment> \<open>a node that is not activated at mount\<close>
  have "safeRun off (Mount # es2)"
    by (simp add: es2_def off_def safeProps_def rootProps_def)
  then obtain r2 where "run (Mount # es2) (off, constructor off) = Inr r2"
    using run_returns [of "Mount # es2" off "constructor off"] by blast
  then obtain p2 s2 where r2: "run (Mount # es2) (off, constructor off) = Inr (p2, s2)"
    by (cases r2) simp
  have "onActivateCalls (effects s2) = spec_calls False es2"
    using onActivate_per_observed_change [where p = off and es = es2 and p' = p2 and s' = s2]
      a(2) r2
    by blast
  then have c2: "onActivateCalls (effects s2) = [True, False]"
    by (simp add: es2_def a)
  \<comment> \<open>mount\<close>
  have m: "componentDidMount rootProps (constructor rootProps)
             = Inr (enter rootProps (constructor rootProps))"
    by (simp add: componentDidMount_Inr [OF a(1)] a)
  have c3: "onActivateCalls (emitted (constructor rootProps) (enter rootProps (constructor rootProps))) = []"
    using onActivate_per_observed_change [where q = rootProps and x = "constructor rootProps"
        and m = "enter rootProps (constructor rootProps)"] m
    by blast
  from u0 a r1 c1 u e r2 c2 m c3 show ?thesis
    by (simp add: off_def es1_def es2_def)
qed

text \<open>
  Mount itself does not record the activation it evaluates: the recorded value stays
  \<open>False\<close> until the first update. A node mounted activated therefore gets
  \<^verbatim>\<open>onActivate(true)\<close> from its first update, and if that update already deactivates it,
  nothing is called and the entry started at mount runs to \<open>ENTERED\<close>.
\<close>

lemma mount_leaves_activation_unrecorded:
  "isActivated rootProps = Inr True
   \<and> map_sum id (\<lambda>r. (activated (snd r), onActivateCalls (effects (snd r))))
        (run [Mount] (rootProps, constructor rootProps)) = Inr (False, [])
   \<and> map_sum id (\<lambda>r. (activated (snd r), onActivateCalls (effects (snd r))))
        (run [Mount, Update rootProps] (rootProps, constructor rootProps)) = Inr (True, [True])
   \<and> map_sum id (\<lambda>r. (flowValue (snd r), onActivateCalls (effects (snd r))))
        (run [Mount, Update (rootProps\<lparr>activate := Some False\<rparr>), Fire 0, Fire 1]
           (rootProps, constructor rootProps)) = Inr (ENTERED, [])"
  by (simp add: eval_defs onActivateCalls_def)

end
